theory Spec2Isabelle
  imports Complex_Main
begin

section \<open>The batch-transfer task of clearsync\<close>

text \<open>
  A shallow embedding of \<^verbatim>\<open>src/tasks/sendBatchTransfer.ts\<close>: the address-file parser,
  the decimal scaling \<^verbatim>\<open>formatWithDecimals\<close>, the configuration and balance checks and
  the scheduler loop of the task's action.

  JavaScript strings are modelled as \<^typ>\<open>string\<close> (of ASCII characters), a thrown
  exception as the left summand of a result. The integer task parameters
  (\<^verbatim>\<open>types.int\<close>), the length of the address list and the cursor of the loop are
  \<^typ>\<open>int\<close> with exact arithmetic, as the numbers of the source are for integers of
  magnitude below \<open>2 ^ 53\<close>; the numbers that are not integers (the amount, the results of
  \<^verbatim>\<open>Math.random()\<close> and what is computed from them) are IEEE 754 doubles.
\<close>

subsection \<open>Constants\<close>

definition ADDRESS_ZERO :: string where
  "ADDRESS_ZERO = ''0x'' @ replicate 40 (CHR ''0'')"

definition MAX_BATCH_SIZE :: int where
  "MAX_BATCH_SIZE = 500"

definition DEFAULT_INTERVAL :: int where
  "DEFAULT_INTERVAL = 10"

text \<open>
  \<^verbatim>\<open>addressRegex = /^0x[\dA-Fa-f]{40}$/\<close>: the character class, then the test of a
  whole line (no flag is set, so both anchors are those of the input).
\<close>

definition hexClass :: "char \<Rightarrow> bool" where
  "hexClass c \<longleftrightarrow> c \<in> set ''0123456789'' \<or> c \<in> set ''ABCDEF'' \<or> c \<in> set ''abcdef''"

definition addressRegex_test :: "string \<Rightarrow> bool" where
  "addressRegex_test s \<longleftrightarrow>
     take 2 s = ''0x'' \<and> length (drop 2 s) = 40 \<and> list_all hexClass (drop 2 s)"

subsection \<open>Errors\<close>

datatype error =
    MinBatchAboveMax
  | MinIntervalAboveMax
  | MaxBatchAboveCap
  | RangeError
  | InvalidBigNumber
  | InsufficientFunds
  | NotOwner
  | SubmissionError
  | CursorNotInteger

subsection \<open>parseAddressesFile\<close>

text \<open>
  The reader's state is the array \<^verbatim>\<open>addresses\<close> and what was written to the console.
  \<^verbatim>\<open>on_line\<close> is the handler of the \<^verbatim>\<open>'line'\<close> event; the \<^verbatim>\<open>'close'\<close> handler resolves
  the promise with the array. The lines are those \<^verbatim>\<open>readline\<close> delivers for the file.
\<close>

record reader =
  addresses :: "string list"
  console :: "string list"

definition on_line :: "reader \<Rightarrow> string \<Rightarrow> reader" where
  "on_line r address =
     (if \<not> addressRegex_test address
      then r\<lparr>console := console r @ [''Invalid address: '' @ address]\<rparr>
      else if address = ADDRESS_ZERO then r
      else r\<lparr>addresses := addresses r @ [address]\<rparr>)"

definition parseAddressesFile :: "string list \<Rightarrow> string list" where
  "parseAddressesFile lines =
     addresses (foldl on_line \<lparr>addresses = [], console = []\<rparr> lines)"

subsection \<open>formatWithDecimals\<close>

text \<open>\<^verbatim>\<open>String.prototype.indexOf\<close> of one character: the first position, or \<open>-1\<close>.\<close>

fun indexOf :: "string \<Rightarrow> char \<Rightarrow> int" where
  "indexOf [] c = - 1"
| "indexOf (x # xs) c =
     (if x = c then 0
      else (let r = indexOf xs c in if r = - 1 then - 1 else r + 1))"

text \<open>
  \<^verbatim>\<open>'0'.repeat(count)\<close> throws a \<^verbatim>\<open>RangeError\<close> on a negative count.
\<close>

definition repeat_zero :: "int \<Rightarrow> error + string" where
  "repeat_zero count =
     (if count < 0 then Inl RangeError else Inr (replicate (nat count) (CHR ''0'')))"

text \<open>
  \<^verbatim>\<open>value.replace('.', '')\<close> with a string pattern removes the first occurrence only,
  which is \<^const>\<open>remove1\<close>.
\<close>

definition formatWithDecimals :: "string \<Rightarrow> int \<Rightarrow> error + string" where
  "formatWithDecimals value decimals =
     (let pointIndex = indexOf value (CHR ''.'') in
      if pointIndex = - 1 then
        (case repeat_zero decimals of
           Inl e \<Rightarrow> Inl e
         | Inr zeros \<Rightarrow> Inr (value @ zeros))
      else
        (let length = int (length value) - pointIndex - 1 in
         case repeat_zero (decimals - length) of
           Inl e \<Rightarrow> Inl e
         | Inr zeros \<Rightarrow> Inr (remove1 (CHR ''.'') value @ zeros)))"

text \<open>
  The fractional part of a decimal string (what follows its first separator), and the
  number a string of decimal digits denotes: the vocabulary in which the results about
  \<open>formatWithDecimals\<close> are stated.
\<close>

definition fractionalPart :: "string \<Rightarrow> string" where
  "fractionalPart v = drop 1 (dropWhile (\<lambda>c. c \<noteq> CHR ''.'') v)"

definition digitValue :: "char \<Rightarrow> nat" where
  "digitValue c = of_char c - 48"

definition decimalValue :: "string \<Rightarrow> nat" where
  "decimalValue s = foldl (\<lambda>acc c. 10 * acc + digitValue c) 0 s"

subsection \<open>JavaScript numbers\<close>

text \<open>
  A \<^verbatim>\<open>number\<close> is an IEEE 754 double: \<open>Finite m e\<close> is the value \<open>m * 2 ^ e\<close> with
  \<open>2 ^ 52 \<le> \<bar>m\<bar> < 2 ^ 53\<close> and \<open>-1074 \<le> e \<le> 971\<close>, or with \<open>\<bar>m\<bar> < 2 ^ 52\<close> and
  \<open>e = -1074\<close>, or with \<open>m = 0\<close> and \<open>e = 0\<close> (the sign of zero is not kept: both zeros
  print as \<^verbatim>\<open>0\<close> and multiply to zero); \<open>Infinity True\<close> is the negative infinity.

  \<open>doubleOfRatio\<close> is the double nearest to \<open>p / q\<close> (for \<open>p \<ge> 0\<close> and \<open>q > 0\<close>), ties to
  the even mantissa, with the sign given. \<open>numberTimes q x\<close> is the product \<^verbatim>\<open>q * x\<close>
  and \<open>numberPlus x k\<close> the sum \<^verbatim>\<open>x + k\<close> with an integer \<open>q\<close> or \<open>k\<close>: the exact
  product or sum, rounded once.
\<close>

datatype number = Finite int int | Infinity bool | NaN

function bitLength :: "int \<Rightarrow> int" where
  "bitLength n = (if n \<le> 0 then 0 else 1 + bitLength (n div 2))"
  by pat_completeness auto
termination
  by (relation "measure nat") auto

declare bitLength.simps [simp del]

definition roundRatio :: "int \<Rightarrow> int \<Rightarrow> int" where
  "roundRatio p q =
     (let d = p div q; r = p mod q
      in if 2 * r < q then d
         else if 2 * r > q then d + 1
         else if even d then d else d + 1)"

definition atLeastPow2 :: "int \<Rightarrow> int \<Rightarrow> int \<Rightarrow> bool" where
  "atLeastPow2 p q t = (if 0 \<le> t then q * 2 ^ nat t \<le> p else q \<le> p * 2 ^ nat (- t))"

definition doubleOfRatio :: "bool \<Rightarrow> int \<Rightarrow> int \<Rightarrow> number" where
  "doubleOfRatio negative p q =
     (let t = bitLength p - bitLength q;
          lg = (if atLeastPow2 p q t then t else t - 1);
          e = max (lg - 52) (- 1074);
          m = (if e < 0 then roundRatio (p * 2 ^ nat (- e)) q else roundRatio p (q * 2 ^ nat e));
          m' = (if m = 2 ^ 53 then 2 ^ 52 else m);
          e' = (if m = 2 ^ 53 then e + 1 else e)
      in if m' = 0 then Finite 0 0
         else if e' > 971 then Infinity negative
         else Finite (if negative then - m' else m') e')"

definition numberTimes :: "int \<Rightarrow> number \<Rightarrow> number" where
  "numberTimes q x =
     (case x of
        NaN \<Rightarrow> NaN
      | Infinity negative \<Rightarrow> (if q = 0 then NaN else Infinity (negative \<noteq> (q < 0)))
      | Finite m e \<Rightarrow>
          (if 0 \<le> e then doubleOfRatio (q * m < 0) (\<bar>q * m\<bar> * 2 ^ nat e) 1
           else doubleOfRatio (q * m < 0) \<bar>q * m\<bar> (2 ^ nat (- e))))"

definition numberPlus :: "number \<Rightarrow> int \<Rightarrow> number" where
  "numberPlus x k =
     (case x of
        NaN \<Rightarrow> NaN
      | Infinity negative \<Rightarrow> Infinity negative
      | Finite m e \<Rightarrow>
          (if 0 \<le> e
           then (let s = m * 2 ^ nat e + k in doubleOfRatio (s < 0) \<bar>s\<bar> 1)
           else (let s = m + k * 2 ^ nat (- e) in doubleOfRatio (s < 0) \<bar>s\<bar> (2 ^ nat (- e)))))"

text \<open>
  \<^verbatim>\<open>Math.floor\<close>: an integer, or the infinity or \<^verbatim>\<open>NaN\<close> it was given.
\<close>

datatype floored = Whole int | PosInfinity | NegInfinity | NotNumber

definition numberFloor :: "number \<Rightarrow> floored" where
  "numberFloor x =
     (case x of
        NaN \<Rightarrow> NotNumber
      | Infinity negative \<Rightarrow> (if negative then NegInfinity else PosInfinity)
      | Finite m e \<Rightarrow> Whole (if 0 \<le> e then m * 2 ^ nat e else m div 2 ^ nat (- e)))"

text \<open>
  The conversion of a string to a number that \<^verbatim>\<open>quantity * amount\<close> applies to the
  amount: white space around the literal is dropped (the ASCII white space; the other
  Unicode spaces are not modelled), the empty string is 0, a literal is \<^verbatim>\<open>0x\<close>,
  \<^verbatim>\<open>0o\<close> or \<^verbatim>\<open>0b\<close> with digits of that base, or an optional sign before \<^verbatim>\<open>Infinity\<close> or a
  decimal literal (digits, an optional fraction, an optional exponent), and any other
  string is \<^verbatim>\<open>NaN\<close>.
\<close>

definition whiteSpace :: "char \<Rightarrow> bool" where
  "whiteSpace c \<longleftrightarrow> c \<in> set [CHR 0x09, CHR 0x0A, CHR 0x0B, CHR 0x0C, CHR 0x0D, CHR 0x20]"

definition trim :: "string \<Rightarrow> string" where
  "trim s = rev (dropWhile whiteSpace (rev (dropWhile whiteSpace s)))"

definition decimalDigit :: "char \<Rightarrow> bool" where
  "decimalDigit c \<longleftrightarrow> c \<in> set ''0123456789''"

definition hexDigitValue :: "char \<Rightarrow> nat" where
  "hexDigitValue c =
     (if decimalDigit c then of_char c - 48
      else if c \<in> set ''ABCDEF'' then of_char c - 55
      else of_char c - 87)"

definition radixValue :: "nat \<Rightarrow> string \<Rightarrow> nat" where
  "radixValue base s = foldl (\<lambda>acc c. base * acc + hexDigitValue c) 0 s"

definition radixDigits :: "nat \<Rightarrow> string \<Rightarrow> bool" where
  "radixDigits base s \<longleftrightarrow> s \<noteq> [] \<and> list_all (\<lambda>c. hexClass c \<and> hexDigitValue c < base) s"

definition radixLiteral :: "string \<Rightarrow> int option" where
  "radixLiteral t =
     (let prefix = take 2 t; ds = drop 2 t
      in if (prefix = ''0x'' \<or> prefix = ''0X'') \<and> radixDigits 16 ds then Some (int (radixValue 16 ds))
         else if (prefix = ''0o'' \<or> prefix = ''0O'') \<and> radixDigits 8 ds then Some (int (radixValue 8 ds))
         else if (prefix = ''0b'' \<or> prefix = ''0B'') \<and> radixDigits 2 ds then Some (int (radixValue 2 ds))
         else None)"

definition exponentPart :: "string \<Rightarrow> int option" where
  "exponentPart s =
     (case s of
        [] \<Rightarrow> Some 0
      | c # t \<Rightarrow>
          if c = CHR ''e'' \<or> c = CHR ''E'' then
            (let negative = (take 1 t = ''-'');
                 ds = (if take 1 t = ''-'' \<or> take 1 t = ''+'' then drop 1 t else t)
             in if ds \<noteq> [] \<and> list_all decimalDigit ds
                then Some ((if negative then - 1 else 1) * int (decimalValue ds))
                else None)
          else None)"

definition decimalLiteral :: "string \<Rightarrow> (int \<times> int) option" where
  "decimalLiteral s =
     (let ip = takeWhile decimalDigit s;
          r = dropWhile decimalDigit s;
          fp = (if take 1 r = ''.'' then takeWhile decimalDigit (drop 1 r) else []);
          r' = (if take 1 r = ''.'' then dropWhile decimalDigit (drop 1 r) else r)
      in if ip = [] \<and> fp = [] then None
         else case exponentPart r' of
                None \<Rightarrow> None
              | Some x \<Rightarrow>
                  (let mant = int (decimalValue (ip @ fp));
                       d = x - int (length fp)
                   in Some (if 0 \<le> d then (mant * 10 ^ nat d, 1) else (mant, 10 ^ nat (- d)))))"

definition stringToNumber :: "string \<Rightarrow> number" where
  "stringToNumber s =
     (let t = trim s
      in if t = [] then Finite 0 0
         else case radixLiteral t of
                Some v \<Rightarrow> doubleOfRatio False v 1
              | None \<Rightarrow>
                  (let negative = (take 1 t = ''-'');
                       u = (if take 1 t = ''-'' \<or> take 1 t = ''+'' then drop 1 t else t)
                   in if u = ''Infinity'' then Infinity negative
                      else case decimalLiteral u of
                             None \<Rightarrow> NaN
                           | Some (p, q) \<Rightarrow> doubleOfRatio negative p q))"

text \<open>
  \<^verbatim>\<open>Number.prototype.toString()\<close>: the digits are the shortest decimal \<open>s\<close> (of \<open>k\<close>
  digits, \<open>k \<le> 17\<close>) with an exponent \<open>n\<close> such that \<open>s * 10 ^ (n - k)\<close> rounds to the number,
  the closest to it among these (the even \<open>s\<close> on a tie); they are laid out in positional
  notation for \<open>-6 < n \<le> 21\<close> and in exponent notation otherwise.
  \<open>decimalExponent p q\<close> is the \<open>n\<close> with \<open>10 ^ (n - 1) \<le> p / q < 10 ^ n\<close>.
\<close>

function leadingExponent :: "int \<Rightarrow> int \<Rightarrow> int \<Rightarrow> int" where
  "leadingExponent p q j =
     (if p \<le> 0 \<or> q \<le> p * 10 then j else leadingExponent (p * 10) q (j + 1))"
  by pat_completeness auto
termination
  by (relation "measure (\<lambda>(p, q, j). nat (q - p))") auto

declare leadingExponent.simps [simp del]

function digitCount :: "int \<Rightarrow> int" where
  "digitCount n = (if n < 10 then 1 else 1 + digitCount (n div 10))"
  by pat_completeness auto
termination
  by (relation "measure nat") auto

declare digitCount.simps [simp del]

definition decimalExponent :: "int \<Rightarrow> int \<Rightarrow> int" where
  "decimalExponent p q =
     (if q \<le> p then digitCount (p div q) else 1 - leadingExponent p q 1)"

definition digitChar :: "int \<Rightarrow> char" where
  "digitChar d = ''0123456789'' ! nat d"

function digitsOf :: "int \<Rightarrow> string" where
  "digitsOf n =
     (if n < 10 then [digitChar n] else digitsOf (n div 10) @ [digitChar (n mod 10)])"
  by pat_completeness auto
termination
  by (relation "measure nat") auto

declare digitsOf.simps [simp del]

definition ratioOf :: "int \<Rightarrow> int \<Rightarrow> int \<times> int" where
  "ratioOf m e = (if 0 \<le> e then (m * 2 ^ nat e, 1) else (m, 2 ^ nat (- e)))"

definition scaled :: "int \<Rightarrow> int \<Rightarrow> int \<times> int" where
  "scaled s d = (if 0 \<le> d then (s * 10 ^ nat d, 1) else (s, 10 ^ nat (- d)))"

definition floorScaled :: "int \<Rightarrow> int \<Rightarrow> int \<Rightarrow> int" where
  "floorScaled p q d = (if 0 \<le> d then p div (q * 10 ^ nat d) else (p * 10 ^ nat (- d)) div q)"

definition roundsTo :: "int \<Rightarrow> int \<Rightarrow> int \<Rightarrow> int \<Rightarrow> bool" where
  "roundsTo m e s d = (case scaled s d of (a, b) \<Rightarrow> doubleOfRatio False a b = Finite m e)"

definition candidates :: "int \<Rightarrow> int \<Rightarrow> int \<Rightarrow> (int \<times> int) list" where
  "candidates m e k =
     (case ratioOf m e of (p, q) \<Rightarrow>
        concat (map (\<lambda>n.
            filter (\<lambda>(n, s). 10 ^ nat (k - 1) \<le> s \<and> s < 10 ^ nat k \<and> roundsTo m e s (n - k))
              [(n, floorScaled p q (n - k)), (n, floorScaled p q (n - k) + 1)])
          [decimalExponent p q, decimalExponent p q + 1]))"

definition distance :: "int \<Rightarrow> int \<Rightarrow> int \<Rightarrow> int \<times> int \<Rightarrow> int \<times> int" where
  "distance m e k c =
     (case ratioOf m e of (p, q) \<Rightarrow>
      case c of (n, s) \<Rightarrow>
      case scaled s (n - k) of (a, b) \<Rightarrow> (\<bar>a * q - p * b\<bar>, b * q))"

definition closer :: "int \<Rightarrow> int \<Rightarrow> int \<Rightarrow> int \<times> int \<Rightarrow> int \<times> int \<Rightarrow> int \<times> int" where
  "closer m e k c best =
     (case distance m e k c of (x, y) \<Rightarrow>
      case distance m e k best of (x', y') \<Rightarrow>
        if x * y' < x' * y then c
        else if x' * y < x * y' then best
        else if even (snd best) then best else c)"

function findShortest :: "int \<Rightarrow> int \<Rightarrow> int \<Rightarrow> (int \<times> int \<times> int) option" where
  "findShortest m e k =
     (if 17 < k then None
      else case candidates m e k of
             [] \<Rightarrow> findShortest m e (k + 1)
           | c # cs \<Rightarrow> Some (k, fold (closer m e k) cs c))"
  by pat_completeness auto
termination
  by (relation "measure (\<lambda>(m, e, k). nat (18 - k))") auto

declare findShortest.simps [simp del]

definition formatDigits :: "int \<Rightarrow> int \<Rightarrow> string \<Rightarrow> string" where
  "formatDigits k n ds =
     (if k \<le> n \<and> n \<le> 21 then ds @ replicate (nat (n - k)) (CHR ''0'')
      else if 0 < n \<and> n \<le> 21 then take (nat n) ds @ ''.'' @ drop (nat n) ds
      else if - 6 < n \<and> n \<le> 0 then ''0.'' @ replicate (nat (- n)) (CHR ''0'') @ ds
      else (if k = 1 then ds else take 1 ds @ ''.'' @ drop 1 ds)
             @ ''e'' @ (if 0 \<le> n - 1 then ''+'' else ''-'') @ digitsOf \<bar>n - 1\<bar>)"

definition numberToString :: "number \<Rightarrow> string" where
  "numberToString x =
     (case x of
        NaN \<Rightarrow> ''NaN''
      | Infinity negative \<Rightarrow> (if negative then ''-Infinity'' else ''Infinity'')
      | Finite m e \<Rightarrow>
          if m = 0 then ''0''
          else (if m < 0 then ''-'' else [])
                 @ (case findShortest \<bar>m\<bar> e 1 of
                      None \<Rightarrow> []
                    | Some (k, n, s) \<Rightarrow> formatDigits k n (digitsOf s)))"

subsection \<open>The task's parameters and the ledger client\<close>

text \<open>
  \<^verbatim>\<open>TaskArgs\<close>. The optional parameters are \<^verbatim>\<open>undefined\<close> when absent; \<^verbatim>\<open>tokenNative\<close> is
  a flag. \<^verbatim>\<open>amount\<close> is declared with \<^verbatim>\<open>addParam\<close> and no type, so that the action
  receives the string that was typed, whatever the annotation of \<^verbatim>\<open>TaskArgs\<close> says.
\<close>

record TaskArgs =
  addressesPath :: string
  tokenAddress :: string
  batcherAddress :: string
  amount :: string
  tokenNative :: bool
  minBatchSize :: "int option"
  maxBatchSize :: "int option"
  minInterval :: "int option"
  maxInterval :: "int option"

text \<open>
  What the action reads from its environment: the file system, the signer, the token and
  batcher contracts, whether the \<open>k\<close>-th call of \<^verbatim>\<open>batchTransfer\<close> is accepted (a
  rejection throws), and the successive results of \<^verbatim>\<open>Math.random()\<close>.
\<close>

record ledger =
  fileLines :: "string \<Rightarrow> string list"
  senderAddress :: string
  providerBalance :: "string \<Rightarrow> int"
  tokenBalanceOf :: "string \<Rightarrow> string \<Rightarrow> int"
  tokenDecimals :: "string \<Rightarrow> int"
  batcherOwner :: "string \<Rightarrow> string"
  accepted :: "nat \<Rightarrow> bool"
  random :: "nat \<Rightarrow> number"

text \<open>
  What a run does to the outside: a batch submitted (token or sentinel, the batch, the
  amount) and a pacing wait of the interval drawn, in minutes.
\<close>

datatype event =
    Submit string "string list" string
  | Wait floored

record run =
  final_i :: int
  events :: "event list"
  failure :: "error option"

subsection \<open>Configuration check\<close>

definition orDefault :: "'a option \<Rightarrow> 'a \<Rightarrow> 'a" where
  "orDefault v d = (case v of None \<Rightarrow> d | Some x \<Rightarrow> x)"

definition validateConfig :: "int \<Rightarrow> int \<Rightarrow> int \<Rightarrow> int \<Rightarrow> error option" where
  "validateConfig minBatch maxBatch minInt maxInt =
     (if minBatch > maxBatch then Some MinBatchAboveMax
      else if minInt > maxInt then Some MinIntervalAboveMax
      else if maxBatch > MAX_BATCH_SIZE then Some MaxBatchAboveCap
      else None)"

subsection \<open>The scheduler loop\<close>

text \<open>
  \<^verbatim>\<open>Math.floor(Math.random() * (hi - lo + 1) + lo)\<close>, with \<open>r\<close> the result of
  \<^verbatim>\<open>Math.random()\<close>: the product and the sum are rounded to doubles, so that for an
  \<open>r\<close> close to 1 the sum can be \<open>hi + 1\<close>.
\<close>

definition randomInt :: "number \<Rightarrow> int \<Rightarrow> int \<Rightarrow> floored" where
  "randomInt r lo hi = numberFloor (numberPlus (numberTimes (hi - lo + 1) r) lo)"

text \<open>
  The two statements that fix the size of a batch (lines 103 to 106) at the cursor \<open>i\<close>
  of a list of \<open>len\<close> addresses: an integer too large, or \<^verbatim>\<open>Infinity\<close>, is clipped to
  what remains. A size of \<^verbatim>\<open>-Infinity\<close> or \<^verbatim>\<open>NaN\<close> would take the cursor out of the
  integers; it needs a \<^verbatim>\<open>Math.random()\<close> outside \<open>[0, 1)\<close> or bounds beyond the doubles,
  and the model follows such a run no further (\<open>None\<close> here, \<open>CursorNotInteger\<close> in the
  loop).
\<close>

definition clip :: "floored \<Rightarrow> int \<Rightarrow> int \<Rightarrow> int option" where
  "clip drawn i len =
     (case drawn of
        Whole d \<Rightarrow> Some (if i + d > len then len - i else d)
      | PosInfinity \<Rightarrow> Some (len - i)
      | NegInfinity \<Rightarrow> None
      | NotNumber \<Rightarrow> None)"

text \<open>
  \<^verbatim>\<open>Array.prototype.slice(start, end)\<close>: a negative index counts from the end of the
  array, both are clamped to the array, and an empty range gives the empty array.
\<close>

definition slice :: "'a list \<Rightarrow> int \<Rightarrow> int \<Rightarrow> 'a list" where
  "slice xs start end' =
     (let len = int (length xs);
          k = (if start < 0 then max (len + start) 0 else min start len);
          final = (if end' < 0 then max (len + end') 0 else min end' len)
      in take (nat (final - k)) (drop (nat k) xs))"

text \<open>
  The \<^verbatim>\<open>while\<close> loop of the action, from the cursor \<open>i\<close>, in its \<open>n\<close>-th iteration
  (counted from 0; iteration \<open>n\<close> makes the calls \<open>2n\<close> and \<open>2n + 1\<close> of
  \<^verbatim>\<open>Math.random()\<close>), with the events so far. The value \<open>None\<close> is a loop that never
  ends.
\<close>

partial_function (option) scheduler ::
  "ledger \<Rightarrow> int \<Rightarrow> int \<Rightarrow> int \<Rightarrow> int \<Rightarrow> string \<Rightarrow> string \<Rightarrow> string list
     \<Rightarrow> int \<Rightarrow> nat \<Rightarrow> event list \<Rightarrow> run option" where
  "scheduler L minBatch maxBatch minInt maxInt token amountFormatted addrs i n evs =
     (if i < int (length addrs) then
        (case clip (randomInt (random L (2 * n)) minBatch maxBatch) i (int (length addrs)) of
           None \<Rightarrow> Some \<lparr>final_i = i, events = evs, failure = Some CursorNotInteger\<rparr>
         | Some batchSize \<Rightarrow>
            (let batchAddresses = slice addrs i (i + batchSize)
             in if \<not> accepted L n
                then Some \<lparr>final_i = i, events = evs, failure = Some SubmissionError\<rparr>
                else
                  (let interval = randomInt (random L (2 * n + 1)) minInt maxInt
                   in scheduler L minBatch maxBatch minInt maxInt token amountFormatted addrs
                        (i + batchSize) (n + 1)
                        (evs @ [Submit token batchAddresses amountFormatted, Wait interval]))))
      else Some \<lparr>final_i = i, events = evs, failure = None\<rparr>)"

text \<open>The batches a sequence of events submitted, in order.\<close>

fun batches :: "event list \<Rightarrow> string list list" where
  "batches [] = []"
| "batches (Submit t b a # es) = b # batches es"
| "batches (Wait m # es) = batches es"

text \<open>
  A sequence of events in which every submission is followed at once by a wait, and
  every wait follows a submission.
\<close>

fun alternates :: "event list \<Rightarrow> bool" where
  "alternates [] = True"
| "alternates (Submit t b a # Wait m # es) = alternates es"
| "alternates es = False"

text \<open>
  The clipped batch size of the iteration of the loop that starts at cursor \<open>i\<close> as
  iteration \<open>n\<close>, and the two events of that iteration when the size is \<open>b\<close>: names for
  the expressions of the loop body, used to state the results.
\<close>

definition batchSizeAt :: "ledger \<Rightarrow> int \<Rightarrow> int \<Rightarrow> string list \<Rightarrow> int \<Rightarrow> nat \<Rightarrow> int option" where
  "batchSizeAt L minBatch maxBatch addrs i n =
     clip (randomInt (random L (2 * n)) minBatch maxBatch) i (int (length addrs))"

definition iterationEvents ::
  "ledger \<Rightarrow> int \<Rightarrow> int \<Rightarrow> string \<Rightarrow> string \<Rightarrow> string list \<Rightarrow> int \<Rightarrow> nat \<Rightarrow> int \<Rightarrow> event list" where
  "iterationEvents L minInt maxInt token amountFormatted addrs i n b =
     [Submit token (slice addrs i (i + b)) amountFormatted,
      Wait (randomInt (random L (2 * n + 1)) minInt maxInt)]"

text \<open>
  Every result of \<^verbatim>\<open>Math.random()\<close> is a double in \<open>[0, 1)\<close>. A draw of the batch size
  stays within the range when it is an integer no larger than the maximum; \<open>belowOne\<close> is
  a double in \<open>[0, 1 - 2 ^ -43]\<close>, far enough from 1 for that.
\<close>

definition unitInterval :: "number \<Rightarrow> bool" where
  "unitInterval r =
     (case r of
        Finite m e \<Rightarrow> 0 \<le> m \<and> (m = 0 \<or> (e < 0 \<and> m < 2 ^ nat (- e)))
      | Infinity negative \<Rightarrow> False
      | NaN \<Rightarrow> False)"

definition randomValid :: "ledger \<Rightarrow> bool" where
  "randomValid L \<longleftrightarrow> (\<forall>k. unitInterval (random L k))"

definition belowOne :: "number \<Rightarrow> bool" where
  "belowOne r =
     (case r of
        Finite m e \<Rightarrow> 0 \<le> m \<and> (m = 0 \<or> (e < 0 \<and> m * 2 ^ 43 \<le> (2 ^ 43 - 1) * 2 ^ nat (- e)))
      | Infinity negative \<Rightarrow> False
      | NaN \<Rightarrow> False)"

definition drawsWithin :: "ledger \<Rightarrow> int \<Rightarrow> int \<Rightarrow> bool" where
  "drawsWithin L minBatch maxBatch \<longleftrightarrow>
     (\<forall>k. case randomInt (random L (2 * k)) minBatch maxBatch of
            Whole d \<Rightarrow> d \<le> maxBatch
          | PosInfinity \<Rightarrow> False
          | NegInfinity \<Rightarrow> False
          | NotNumber \<Rightarrow> False)"

subsection \<open>The balance check\<close>

text \<open>
  \<^verbatim>\<open>tokenBalance.lt(expectedCost)\<close> converts its string argument with \<^verbatim>\<open>BigNumber.from\<close>
  (ethers 5): an optional minus sign before \<^verbatim>\<open>0x\<close> and hexadecimal digits, or before
  decimal digits, is a number; any other string throws.
\<close>

definition hexValue :: "string \<Rightarrow> nat" where
  "hexValue s = foldl (\<lambda>acc c. 16 * acc + hexDigitValue c) 0 s"

definition bigNumberFrom :: "string \<Rightarrow> error + int" where
  "bigNumberFrom s =
     (let negative = (take 1 s = ''-'');
          body = (if negative then drop 1 s else s);
          sign = (if negative then - 1 else 1)
      in if take 2 body = ''0x'' \<and> drop 2 body \<noteq> []
              \<and> list_all hexClass (drop 2 body)
         then Inr (sign * int (hexValue (drop 2 body)))
         else if body \<noteq> [] \<and> list_all decimalDigit body
         then Inr (sign * int (decimalValue body))
         else Inl InvalidBigNumber)"

definition lt :: "int \<Rightarrow> string \<Rightarrow> error + bool" where
  "lt balance other =
     (case bigNumberFrom other of
        Inl e \<Rightarrow> Inl e
      | Inr v \<Rightarrow> Inr (balance < v))"

subsection \<open>The action of the task\<close>

definition abort :: "error \<Rightarrow> run option" where
  "abort e = Some \<lparr>final_i = 0, events = [], failure = Some e\<rparr>"

text \<open>
  The action, in the order of the source: defaults, configuration check, address file,
  decimals and the amount per recipient, balance, expected cost and its comparison, owner
  check, loop. A thrown exception ends the run with the events up to it.
\<close>

definition sendBatchTransfer :: "ledger \<Rightarrow> TaskArgs \<Rightarrow> run option" where
  "sendBatchTransfer L taskArgs =
     (let minBatch = orDefault (minBatchSize taskArgs) MAX_BATCH_SIZE;
          maxBatch = orDefault (maxBatchSize taskArgs) MAX_BATCH_SIZE;
          minInt = orDefault (minInterval taskArgs) DEFAULT_INTERVAL;
          maxInt = orDefault (maxInterval taskArgs) DEFAULT_INTERVAL
      in case validateConfig minBatch maxBatch minInt maxInt of
           Some e \<Rightarrow> abort e
         | None \<Rightarrow>
          (let addrs = parseAddressesFile (fileLines L (addressesPath taskArgs));
               quantity = int (length addrs);
               decimals = tokenDecimals L (tokenAddress taskArgs)
           in case formatWithDecimals (amount taskArgs) decimals of
                Inl e \<Rightarrow> abort e
              | Inr amountFormatted \<Rightarrow>
               (let tokenBalance =
                      (if tokenNative taskArgs
                       then providerBalance L (batcherAddress taskArgs)
                       else tokenBalanceOf L (tokenAddress taskArgs) (batcherAddress taskArgs))
                in case formatWithDecimals
                          (numberToString (numberTimes quantity (stringToNumber (amount taskArgs))))
                          decimals of
                     Inl e \<Rightarrow> abort e
                   | Inr expectedCost \<Rightarrow>
                    (case lt tokenBalance expectedCost of
                       Inl e \<Rightarrow> abort e
                     | Inr True \<Rightarrow> abort InsufficientFunds
                     | Inr False \<Rightarrow>
                        if batcherOwner L (batcherAddress taskArgs) \<noteq> senderAddress L
                        then abort NotOwner
                        else scheduler L minBatch maxBatch minInt maxInt
                               (if tokenNative taskArgs then ADDRESS_ZERO
                                else tokenAddress taskArgs)
                               amountFormatted addrs 0 0 []))))"

subsection \<open>Invariant of the loop and example environments\<close>

text \<open>
  What holds at the head of the loop when no batch size is negative: the cursor is inside
  the list, the batches submitted so far are the recipients before the cursor, \<open>n\<close>
  batches were submitted, and every batch that is not the one reaching the end of the
  list has at least the minimum size. \<open>sizesWithin\<close>: no batch submitted so far is larger
  than the maximum.
\<close>

definition schedInv :: "int \<Rightarrow> string list \<Rightarrow> int \<Rightarrow> nat \<Rightarrow> event list \<Rightarrow> bool" where
  "schedInv minBatch addrs i n evs \<longleftrightarrow>
     0 \<le> i \<and> i \<le> int (length addrs) \<and> concat (batches evs) = take (nat i) addrs \<and>
     length (batches evs) = n \<and>
     (i < int (length addrs) \<longrightarrow> (\<forall>b \<in> set (batches evs). minBatch \<le> int (length b))) \<and>
     (\<forall>b \<in> set (butlast (batches evs)). minBatch \<le> int (length b)) \<and>
     (0 < minBatch \<longrightarrow> [] \<notin> set (batches evs))"

definition sizesWithin :: "int \<Rightarrow> event list \<Rightarrow> bool" where
  "sizesWithin maxBatch evs \<longleftrightarrow> (\<forall>b \<in> set (batches evs). int (length b) \<le> maxBatch)"

text \<open>
  A ledger that accepts every submission, with a given sequence of random numbers, and
  four such sequences.
\<close>

definition ledgerWith :: "(nat \<Rightarrow> number) \<Rightarrow> ledger" where
  "ledgerWith rnd =
     \<lparr>fileLines = (\<lambda>_. []), senderAddress = ''0xS'', providerBalance = (\<lambda>_. 0),
      tokenBalanceOf = (\<lambda>_ _. 0), tokenDecimals = (\<lambda>_. 0), batcherOwner = (\<lambda>_. ''0xS''),
      accepted = (\<lambda>_. True), random = rnd\<rparr>"

definition drawsZero :: "nat \<Rightarrow> number" where
  "drawsZero k = Finite 0 0"

definition drawsA :: "nat \<Rightarrow> number" where
  "drawsA k = (if k = 2 then Finite 0 0 else doubleOfRatio False 3 4)"

definition drawsB :: "nat \<Rightarrow> number" where
  "drawsB k = (if k = 0 then Finite 0 0 else doubleOfRatio False 3 4)"

text \<open>The double \<open>1 - 2 ^ -52\<close>, just below 1, as every result of \<^verbatim>\<open>Math.random()\<close>.\<close>

definition drawsNearOne :: "nat \<Rightarrow> number" where
  "drawsNearOne k = Finite 9007199254740990 (- 53)"

text \<open>
  The balance the check reads: the native balance of the batcher when the flag is set,
  its token balance otherwise.
\<close>

definition tokenBalance :: "ledger \<Rightarrow> TaskArgs \<Rightarrow> int" where
  "tokenBalance L taskArgs =
     (if tokenNative taskArgs then providerBalance L (batcherAddress taskArgs)
      else tokenBalanceOf L (tokenAddress taskArgs) (batcherAddress taskArgs))"

text \<open>
  An address file with three recipients, a ledger whose token has the given decimals and
  whose batcher holds the given balance, and the arguments of a transfer of a given
  amount with every optional parameter left out.
\<close>

definition recipientsFile :: "string list" where
  "recipientsFile =
     [''0x1111111111111111111111111111111111111111'',
      ''0x2222222222222222222222222222222222222222'',
      ''0x3333333333333333333333333333333333333333'']"

definition tokenLedger :: "int \<Rightarrow> int \<Rightarrow> ledger" where
  "tokenLedger decimals balance =
     \<lparr>fileLines = (\<lambda>_. recipientsFile), senderAddress = ''0xS'', providerBalance = (\<lambda>_. 0),
      tokenBalanceOf = (\<lambda>_ _. balance), tokenDecimals = (\<lambda>_. decimals),
      batcherOwner = (\<lambda>_. ''0xS''), accepted = (\<lambda>_. True), random = drawsZero\<rparr>"

definition transferArgs :: "string \<Rightarrow> TaskArgs" where
  "transferArgs a =
     \<lparr>addressesPath = ''addresses.txt'', tokenAddress = ''0xT'', batcherAddress = ''0xB'',
      amount = a, tokenNative = False, minBatchSize = None, maxBatchSize = None,
      minInterval = None, maxInterval = None\<rparr>"

section \<open>Results\<close>

subsection \<open>The address parser\<close>

lemma parse_fold:
  "addresses (foldl on_line r ls) =
     addresses r @ filter (\<lambda>l. addressRegex_test l \<and> l \<noteq> ADDRESS_ZERO) ls"
  by (induction ls arbitrary: r) (auto simp: on_line_def)

lemma hexClass_iff: "hexClass c \<longleftrightarrow> c \<in> set ''0123456789ABCDEFabcdef''"
proof -
  have "''0123456789ABCDEFabcdef'' = ''0123456789'' @ ''ABCDEF'' @ ''abcdef''" by simp
  then show ?thesis by (simp only: hexClass_def set_append Un_iff)
qed

lemma list_all_hexClass:
  "list_all hexClass hs \<longleftrightarrow> set hs \<subseteq> set ''0123456789ABCDEFabcdef''"
  unfolding list_all_iff subset_iff using hexClass_iff by blast

lemma addressRegex_test_iff:
  "addressRegex_test l \<longleftrightarrow>
     (\<exists>hs. l = ''0x'' @ hs \<and> length hs = 40 \<and> set hs \<subseteq> set ''0123456789ABCDEFabcdef'')"
proof
  assume t: "addressRegex_test l"
  then have "l = ''0x'' @ drop 2 l"
    by (metis addressRegex_test_def append_take_drop_id)
  moreover from t have "length (drop 2 l) = 40" by (simp only: addressRegex_test_def)
  moreover from t have "set (drop 2 l) \<subseteq> set ''0123456789ABCDEFabcdef''"
    by (simp only: addressRegex_test_def list_all_hexClass)
  ultimately show "\<exists>hs. l = ''0x'' @ hs \<and> length hs = 40 \<and> set hs \<subseteq> set ''0123456789ABCDEFabcdef''"
    by blast
next
  assume "\<exists>hs. l = ''0x'' @ hs \<and> length hs = 40 \<and> set hs \<subseteq> set ''0123456789ABCDEFabcdef''"
  then obtain hs where l: "l = ''0x'' @ hs" and n: "length hs = 40"
    and h: "set hs \<subseteq> set ''0123456789ABCDEFabcdef''" by blast
  from h have "list_all hexClass hs" by (simp only: list_all_hexClass)
  with l n show "addressRegex_test l" by (simp add: addressRegex_test_def)
qed

text \<open>
  Claim C8. The parser returns exactly the lines that match \<^verbatim>\<open>^0x[0-9A-Fa-f]{40}$\<close> and
  are not the zero address, in their order of appearance and with their repetitions; a
  line that fails the pattern is skipped and the parse goes on. On the four lines of the
  specification's example the result is the two well-formed non-zero addresses.
\<close>

theorem parseAddressesFile_filter:
  "parseAddressesFile ls = filter (\<lambda>l. addressRegex_test l \<and> l \<noteq> ADDRESS_ZERO) ls
   \<and> (addressRegex_test l \<longleftrightarrow>
        (\<exists>hs. l = ''0x'' @ hs \<and> length hs = 40 \<and> set hs \<subseteq> set ''0123456789ABCDEFabcdef''))
   \<and> parseAddressesFile
        [''0xAAAAAAAAAAAAAAAAAAAAAAAAAAAAAAAAAAAAAAAA'', ''not-an-address'',
         ''0x0000000000000000000000000000000000000000'',
         ''0xBBBBBBBBBBBBBBBBBBBBBBBBBBBBBBBBBBBBBBBB'']
      = [''0xAAAAAAAAAAAAAAAAAAAAAAAAAAAAAAAAAAAAAAAA'',
         ''0xBBBBBBBBBBBBBBBBBBBBBBBBBBBBBBBBBBBBBBBB'']"
proof (intro conjI)
  show "parseAddressesFile ls = filter (\<lambda>l. addressRegex_test l \<and> l \<noteq> ADDRESS_ZERO) ls"
    by (simp add: parseAddressesFile_def parse_fold)
  show "addressRegex_test l \<longleftrightarrow>
        (\<exists>hs. l = ''0x'' @ hs \<and> length hs = 40 \<and> set hs \<subseteq> set ''0123456789ABCDEFabcdef'')"
    by (rule addressRegex_test_iff)
  show "parseAddressesFile
        [''0xAAAAAAAAAAAAAAAAAAAAAAAAAAAAAAAAAAAAAAAA'', ''not-an-address'',
         ''0x0000000000000000000000000000000000000000'',
         ''0xBBBBBBBBBBBBBBBBBBBBBBBBBBBBBBBBBBBBBBBB'']
      = [''0xAAAAAAAAAAAAAAAAAAAAAAAAAAAAAAAAAAAAAAAA'',
         ''0xBBBBBBBBBBBBBBBBBBBBBBBBBBBBBBBBBBBBBBBB'']"
    by (simp add: parseAddressesFile_def on_line_def addressRegex_test_def hexClass_def
          ADDRESS_ZERO_def eval_nat_numeral)
qed

theorem parseAddressesFile_filter_witness:
  "parseAddressesFile
     [''0xabcdefABCDEF0123456789abcdefABCDEF012345'', ''0x12'',
      ''0xabcdefABCDEF0123456789abcdefABCDEF012345'']
   = [''0xabcdefABCDEF0123456789abcdefABCDEF012345'',
      ''0xabcdefABCDEF0123456789abcdefABCDEF012345'']"
  using parseAddressesFile_filter
    [of "[''0xabcdefABCDEF0123456789abcdefABCDEF012345'', ''0x12'',
          ''0xabcdefABCDEF0123456789abcdefABCDEF012345'']"]
  by (simp add: addressRegex_test_def hexClass_def ADDRESS_ZERO_def eval_nat_numeral)

subsection \<open>formatWithDecimals\<close>

lemma indexOf_takeWhile:
  "indexOf v c = (if c \<in> set v then int (length (takeWhile (\<lambda>x. x \<noteq> c) v)) else - 1)"
  by (induction v) (auto simp: Let_def)

lemma length_fractionalPart:
  "CHR ''.'' \<in> set v \<Longrightarrow>
   int (length v) - int (length (takeWhile (\<lambda>x. x \<noteq> CHR ''.'') v)) - 1
     = int (length (fractionalPart v))"
  unfolding fractionalPart_def
  by (induction v) auto

lemma fractionalPart_no_point: "CHR ''.'' \<notin> set v \<Longrightarrow> fractionalPart v = []"
  unfolding fractionalPart_def by (induction v) auto

lemma fractionalPart_split:
  "CHR ''.'' \<notin> set ip \<Longrightarrow> fractionalPart (ip @ CHR ''.'' # fp) = fp"
  unfolding fractionalPart_def by (induction ip) auto

lemma formatWithDecimals_eq:
  "formatWithDecimals v d =
     (if d < int (length (fractionalPart v)) then Inl RangeError
      else Inr (remove1 (CHR ''.'') v
                  @ replicate (nat d - length (fractionalPart v)) (CHR ''0'')))"
proof (cases "CHR ''.'' \<in> set v")
  case True
  then show ?thesis
    using length_fractionalPart [OF True]
    by (simp add: formatWithDecimals_def indexOf_takeWhile repeat_zero_def Let_def
          nat_diff_distrib)
next
  case False
  then show ?thesis
    by (simp add: formatWithDecimals_def indexOf_takeWhile repeat_zero_def
          fractionalPart_no_point remove1_idem)
qed

text \<open>
  Claim C5. When the fractional part of the input is no longer than \<open>decimals\<close>: an input
  without separator is returned with \<open>decimals\<close> zeros appended; an input with a separator
  is returned with the (first) separator removed and zeros appended, as many as bring the
  fractional part to the length \<open>decimals\<close>. In particular \<open>"1"\<close> gives \<open>"1000000"\<close> and
  \<open>"1.5"\<close> gives \<open>"1500000"\<close> at 6 decimals.
\<close>

theorem formatWithDecimals_pads:
  assumes "int (length (fractionalPart v)) \<le> d"
  shows "(CHR ''.'' \<notin> set v \<longrightarrow>
            formatWithDecimals v d = Inr (v @ replicate (nat d) (CHR ''0'')))
       \<and> (CHR ''.'' \<in> set v \<longrightarrow>
            formatWithDecimals v d =
              Inr (remove1 (CHR ''.'') v
                     @ replicate (nat d - length (fractionalPart v)) (CHR ''0''))
            \<and> length (fractionalPart v
                        @ replicate (nat d - length (fractionalPart v)) (CHR ''0'')) = nat d)
       \<and> formatWithDecimals ''1'' 6 = Inr ''1000000''
       \<and> formatWithDecimals ''1.5'' 6 = Inr ''1500000''"
proof (intro conjI impI)
  assume "CHR ''.'' \<notin> set v"
  with assms show "formatWithDecimals v d = Inr (v @ replicate (nat d) (CHR ''0''))"
    by (simp add: formatWithDecimals_eq fractionalPart_no_point remove1_idem)
next
  show "formatWithDecimals v d =
          Inr (remove1 (CHR ''.'') v @ replicate (nat d - length (fractionalPart v)) (CHR ''0''))"
    using assms by (simp add: formatWithDecimals_eq)
next
  show "length (fractionalPart v
                  @ replicate (nat d - length (fractionalPart v)) (CHR ''0'')) = nat d"
    using assms by simp
next
  show "formatWithDecimals ''1'' 6 = Inr ''1000000''"
    by (simp add: formatWithDecimals_def repeat_zero_def Let_def eval_nat_numeral)
next
  show "formatWithDecimals ''1.5'' 6 = Inr ''1500000''"
    by (simp add: formatWithDecimals_def repeat_zero_def Let_def eval_nat_numeral)
qed

theorem formatWithDecimals_pads_witness:
  "int (length (fractionalPart ''12.25'')) \<le> 4
   \<and> formatWithDecimals ''12.25'' 4 = Inr ''122500''
   \<and> int (length (fractionalPart ''7'')) \<le> 3
   \<and> formatWithDecimals ''7'' 3 = Inr ''7000''"
proof -
  have a: "int (length (fractionalPart ''12.25'')) \<le> 4" by (simp add: fractionalPart_def)
  have b: "int (length (fractionalPart ''7'')) \<le> 3" by (simp add: fractionalPart_def)
  show ?thesis
    using a b formatWithDecimals_pads [OF a] formatWithDecimals_pads [OF b]
    by (simp add: fractionalPart_def eval_nat_numeral)
qed

text \<open>
  Claim C6, as the code has it. No leading-zero handling takes place: the digit before
  the separator is kept, so \<open>"0.000001"\<close> at 6 decimals gives the seven characters
  \<open>"0000001"\<close>, which the balance comparison reads as the number 1.
\<close>

theorem formatWithDecimals_small_amount:
  "formatWithDecimals ''0.000001'' 6 = Inr ''0000001'' \<and> bigNumberFrom ''0000001'' = Inr 1"
  by (simp add: formatWithDecimals_def repeat_zero_def bigNumberFrom_def Let_def
        decimalDigit_def decimalValue_def digitValue_def)

theorem formatWithDecimals_small_amount_counterexample:
  "formatWithDecimals ''0.000001'' 6 \<noteq> Inr ''000001''"
  by (simp add: formatWithDecimals_def repeat_zero_def Let_def)

text \<open>
  Claim C7. When the fractional part of the input is strictly longer than \<open>decimals\<close>, the
  count of zeros to append is negative and \<^verbatim>\<open>repeat\<close> throws: the function fails with a
  \<^verbatim>\<open>RangeError\<close> and returns no string.
\<close>

theorem formatWithDecimals_rejects:
  assumes "d < int (length (fractionalPart v))"
  shows "formatWithDecimals v d = Inl RangeError"
  using assms by (simp add: formatWithDecimals_eq)

theorem formatWithDecimals_rejects_witness:
  "(2::int) < int (length (fractionalPart ''1.2345'')) \<and> formatWithDecimals ''1.2345'' 2 = Inl RangeError"
proof -
  have a: "(2::int) < int (length (fractionalPart ''1.2345''))" by (simp add: fractionalPart_def)
  show ?thesis using a formatWithDecimals_rejects [OF a] by simp
qed

subsection \<open>Rounding of the draws\<close>

text \<open>
  The draw of line 103 never falls below its lower bound: the rounded product is not
  negative, and the rounded sum is at least the integer that was added, which is a double.
  It does not exceed its upper bound when the result of \<^verbatim>\<open>Math.random()\<close> is at most
  \<open>1 - 2 ^ -43\<close> and the upper bound at most 500: the product and the sum then stay
  below doubles that are \<open>2 ^ -43\<close> under the next integer.
\<close>

lemma bitLength_nonneg: "0 \<le> bitLength n"
  by (induction n rule: bitLength.induct) (subst bitLength.simps, simp)

lemma bitLength_bounds:
  "0 < n \<Longrightarrow> 2 ^ nat (bitLength n - 1) \<le> n \<and> n < 2 ^ nat (bitLength n)"
proof (induction n rule: bitLength.induct)
  case (1 n)
  show ?case
  proof (cases "n = 1")
    case True
    have "bitLength 1 = 1"
      by (subst bitLength.simps, simp, subst bitLength.simps, simp)
    with True show ?thesis by simp
  next
    case False
    with "1.prems" have h: "0 < n div 2" by simp
    from "1.prems" have nn: "\<not> n \<le> 0" by simp
    from "1.IH" [OF nn h]
    have lo: "2 ^ nat (bitLength (n div 2) - 1) \<le> n div 2"
      and hi: "n div 2 < 2 ^ nat (bitLength (n div 2))" by simp_all
    have b: "bitLength n = 1 + bitLength (n div 2)"
      using nn by (subst bitLength.simps) simp
    have bp: "0 < bitLength (n div 2)"
    proof (rule ccontr)
      assume "\<not> 0 < bitLength (n div 2)"
      with bitLength_nonneg [of "n div 2"] have "bitLength (n div 2) = 0" by simp
      with hi h show False by simp
    qed
    have e1: "nat (bitLength n - 1) = Suc (nat (bitLength (n div 2) - 1))"
      using b bp by simp
    have e2: "nat (bitLength n) = Suc (nat (bitLength (n div 2)))"
      using b bp by simp
    have "2 * (2::int) ^ nat (bitLength (n div 2) - 1) \<le> 2 * (n div 2)" using lo by simp
    also have "\<dots> \<le> n" by simp
    finally have L: "2 ^ nat (bitLength n - 1) \<le> n" by (simp add: e1)
    have "n div 2 + 1 \<le> 2 ^ nat (bitLength (n div 2))" using hi by simp
    then have "2 * (n div 2) + 2 \<le> 2 * 2 ^ nat (bitLength (n div 2))" by simp
    moreover have "n < 2 * (n div 2) + 2" by simp
    ultimately have H: "n < 2 ^ nat (bitLength n)" by (simp add: e2)
    from L H show ?thesis ..
  qed
qed

lemma roundRatio_ge_div: "0 < q \<Longrightarrow> p div q \<le> roundRatio p q"
  by (simp add: roundRatio_def Let_def)

lemma atLeastPow2_lg:
  assumes p: "0 < p" and q: "0 < q"
  defines "t \<equiv> bitLength p - bitLength q"
  shows "atLeastPow2 p q (if atLeastPow2 p q t then t else t - 1)"
proof (cases "atLeastPow2 p q t")
  case True
  then show ?thesis by simp
next
  case False
  from bitLength_bounds [OF p] have P: "2 ^ nat (bitLength p - 1) \<le> p" by simp
  from bitLength_bounds [OF q] have Q: "q < 2 ^ nat (bitLength q)" by simp
  from bitLength_bounds [OF p] p have bp: "1 \<le> bitLength p"
    using bitLength_nonneg [of p] by (cases "bitLength p = 0") auto
  have bq: "0 \<le> bitLength q" by (rule bitLength_nonneg)
  have "atLeastPow2 p q (t - 1)"
  proof (cases "0 \<le> t - 1")
    case True
    then have e: "nat (bitLength p - 1) = nat (bitLength q) + nat (t - 1)"
      using bq by (simp add: t_def)
    have "q * 2 ^ nat (t - 1) \<le> 2 ^ nat (bitLength q) * 2 ^ nat (t - 1)"
      using Q by (simp add: mult_right_mono)
    also have "\<dots> = 2 ^ nat (bitLength p - 1)" by (simp add: e power_add)
    also have "\<dots> \<le> p" by (rule P)
    finally show ?thesis using True by (simp add: atLeastPow2_def)
  next
    case F: False
    then have e: "nat (bitLength q) = nat (bitLength p - 1) + nat (- (t - 1))"
      using bp by (simp add: t_def)
    have "q \<le> 2 ^ nat (bitLength q)" using Q by simp
    also have "\<dots> = 2 ^ nat (bitLength p - 1) * 2 ^ nat (- (t - 1))" by (simp add: e power_add)
    also have "\<dots> \<le> p * 2 ^ nat (- (t - 1))" using P by (simp add: mult_right_mono)
    finally show ?thesis using F by (simp add: atLeastPow2_def)
  qed
  with False show ?thesis by simp
qed

lemma div_ge:
  assumes "0 < q" "c * q \<le> a"
  shows "c \<le> a div (q::int)"
proof -
  have "(c * q) div q \<le> a div q" using assms(2) assms(1) by (rule zdiv_mono1)
  then show ?thesis using assms(1) by simp
qed

lemma bitLength_zero: "bitLength 0 = 0"
  by (subst bitLength.simps) simp

lemma le_mult_pow2: "0 \<le> (x::int) \<Longrightarrow> x \<le> x * 2 ^ k"
proof -
  assume x: "0 \<le> x"
  have "(1::int) \<le> 2 ^ k" by simp
  then have "x * 1 \<le> x * 2 ^ k" using x by (rule mult_left_mono)
  then show ?thesis by simp
qed

lemma doubleOfRatio_cases:
  fixes p q :: int
  defines "t \<equiv> bitLength p - bitLength q"
  defines "lg \<equiv> (if atLeastPow2 p q t then t else t - 1)"
  defines "e \<equiv> max (lg - 52) (- 1074)"
  defines "m \<equiv> (if e < 0 then roundRatio (p * 2 ^ nat (- e)) q else roundRatio p (q * 2 ^ nat e))"
  defines "m' \<equiv> (if m = 2 ^ 53 then 2 ^ 52 else m)"
  defines "e' \<equiv> (if m = 2 ^ 53 then e + 1 else e)"
  shows "doubleOfRatio False p q =
        (if m' = 0 then Finite 0 0 else if e' > 971 then Infinity False else Finite m' e')"
proof -
  have "doubleOfRatio False p q =
        (if m' = 0 then Finite 0 0 else if e' > 971 then Infinity False
         else Finite (if False then - m' else m') e')"
    unfolding doubleOfRatio_def Let_def t_def lg_def e_def m_def m'_def e'_def by (rule refl)
  then show ?thesis by (simp only: if_False)
qed

lemma doubleOfRatio_lower:
  assumes p: "0 \<le> p" and q: "0 < q" and l0: "0 \<le> l" and l52: "l \<le> 2 ^ 52" and lq: "l * q \<le> p"
  shows "doubleOfRatio False p q = Infinity False \<or>
         (\<exists>b eb. doubleOfRatio False p q = Finite b eb
            \<and> (0 \<le> eb \<longrightarrow> l \<le> b * 2 ^ nat eb) \<and> (eb < 0 \<longrightarrow> l * 2 ^ nat (- eb) \<le> b))"
proof -
  define B :: int where "B = 2 ^ 52"
  have B2: "(2::int) ^ 53 = 2 * B" by (simp add: B_def)
  have B0: "0 < B" by (simp add: B_def)
  have lB: "l \<le> B" using l52 by (simp add: B_def)
  define t where "t = bitLength p - bitLength q"
  define lg where "lg = (if atLeastPow2 p q t then t else t - 1)"
  define e where "e = max (lg - 52) (- 1074)"
  define m where "m = (if e < 0 then roundRatio (p * 2 ^ nat (- e)) q else roundRatio p (q * 2 ^ nat e))"
  define m' where "m' = (if m = 2 * B then B else m)"
  define e' where "e' = (if m = 2 * B then e + 1 else e)"
  have D: "doubleOfRatio False p q =
        (if m' = 0 then Finite 0 0 else if e' > 971 then Infinity False else Finite m' e')"
    unfolding m'_def e'_def
    unfolding B2 [symmetric]
    unfolding B_def m_def e_def lg_def t_def
    by (rule doubleOfRatio_cases)
  show ?thesis
  proof (cases "e < 0")
    case True
    have "(l * q) * 2 ^ nat (- e) \<le> p * 2 ^ nat (- e)"
      using lq by (rule mult_right_mono) simp
    then have "(l * 2 ^ nat (- e)) * q \<le> p * 2 ^ nat (- e)"
      by (simp only: mult.assoc mult.commute [of q])
    then have "l * 2 ^ nat (- e) \<le> (p * 2 ^ nat (- e)) div q" by (rule div_ge [OF q])
    also have "\<dots> \<le> roundRatio (p * 2 ^ nat (- e)) q" by (rule roundRatio_ge_div [OF q])
    also have "\<dots> = m" using True by (simp only: m_def if_True)
    finally have lm: "l * 2 ^ nat (- e) \<le> m" .
    show ?thesis
    proof (cases "m = 2 * B")
      case m53: True
      then have me: "m' = B" "e' = e + 1" by (simp_all add: m'_def e'_def)
      have "\<not> e + 1 > 971" using True by simp
      then have E: "doubleOfRatio False p q = Finite B (e + 1)"
        using D me B0 by simp
      have "0 \<le> e + 1 \<longrightarrow> l \<le> B * 2 ^ nat (e + 1)"
        using lB le_mult_pow2 [of B "nat (e + 1)"] B0 by linarith
      moreover have "e + 1 < 0 \<longrightarrow> l * 2 ^ nat (- (e + 1)) \<le> B"
      proof
        assume "e + 1 < 0"
        then have "nat (- e) = Suc (nat (- (e + 1)))" by simp
        then have "l * 2 ^ nat (- e) = 2 * (l * 2 ^ nat (- (e + 1)))" by simp
        with lm m53 show "l * 2 ^ nat (- (e + 1)) \<le> B" by linarith
      qed
      ultimately show ?thesis using E by blast
    next
      case False
      then have me: "m' = m" "e' = e" by (simp_all add: m'_def e'_def)
      show ?thesis
      proof (cases "m = 0")
        case m0: True
        with lm have "l * 2 ^ nat (- e) \<le> 0" by simp
        moreover have "l \<le> l * 2 ^ nat (- e)" using l0 by (rule le_mult_pow2)
        ultimately have "l = 0" using l0 by linarith
        moreover have "doubleOfRatio False p q = Finite 0 0" using D me m0 by simp
        ultimately show ?thesis by simp
      next
        case mn: False
        have "\<not> e > 971" using True by simp
        then have "doubleOfRatio False p q = Finite m e" using D me mn by simp
        with lm True show ?thesis by simp
      qed
    qed
  next
    case False
    then have e0: "0 \<le> e" by simp
    then have elg: "e = lg - 52" by (simp add: e_def)
    have pp: "0 < p"
    proof (rule ccontr)
      assume "\<not> 0 < p"
      with p have "p = 0" by simp
      then have "t \<le> 0" using bitLength_nonneg [of q] by (simp add: t_def bitLength_zero)
      then have "lg \<le> 0" by (simp add: lg_def)
      with elg e0 show False by simp
    qed
    from atLeastPow2_lg [OF pp q] have "atLeastPow2 p q lg" by (simp only: lg_def t_def)
    moreover have lg0: "0 \<le> lg" using elg e0 by simp
    ultimately have qlg: "q * 2 ^ nat lg \<le> p" by (simp add: atLeastPow2_def)
    have "nat lg = 52 + nat e" using elg e0 by simp
    then have "(2::int) ^ nat lg = B * 2 ^ nat e" by (simp only: power_add B_def)
    with qlg have "q * (B * 2 ^ nat e) \<le> p" by simp
    then have "B * (q * 2 ^ nat e) \<le> p" by (simp only: mult.left_commute)
    moreover have qe: "0 < q * 2 ^ nat e" using q by simp
    ultimately have "B \<le> p div (q * 2 ^ nat e)" by (intro div_ge)
    also have "\<dots> \<le> roundRatio p (q * 2 ^ nat e)" by (rule roundRatio_ge_div [OF qe])
    also have "\<dots> = m" using False by (simp only: m_def if_False)
    finally have m52: "B \<le> m" .
    then have m'52: "B \<le> m'" by (simp add: m'_def)
    have e'0: "0 \<le> e'" using e0 by (simp add: e'_def)
    have "m' \<le> m' * 2 ^ nat e'" using m'52 B0 by (intro le_mult_pow2) linarith
    with m'52 lB have "l \<le> m' * 2 ^ nat e'" by linarith
    moreover have "m' \<noteq> 0" using m'52 B0 by linarith
    ultimately show ?thesis using D e'0 by auto
  qed
qed

lemma doubleOfRatio_nonneg:
  assumes p: "0 \<le> p" and q: "0 < q"
  shows "doubleOfRatio False p q = Infinity False \<or>
         (\<exists>b eb. doubleOfRatio False p q = Finite b eb \<and> 0 \<le> b)"
proof -
  from doubleOfRatio_lower [OF p q, of 0] p q
  consider "doubleOfRatio False p q = Infinity False"
    | b eb where "doubleOfRatio False p q = Finite b eb"
        "0 \<le> eb \<longrightarrow> 0 \<le> b * 2 ^ nat eb" "eb < 0 \<longrightarrow> 0 \<le> b"
    by auto
  then show ?thesis
  proof cases
    case 1
    then show ?thesis by simp
  next
    case 2
    have "0 \<le> b"
    proof (cases "0 \<le> eb")
      case True
      with 2(2) have "0 \<le> b * 2 ^ nat eb" by simp
      then show ?thesis by (simp add: zero_le_mult_iff)
    next
      case False
      with 2(3) show ?thesis by simp
    qed
    with 2(1) show ?thesis by simp
  qed
qed

lemma numberTimes_nonneg:
  assumes "0 \<le> w" "0 \<le> m"
  shows "numberTimes w (Finite m e) = Infinity False \<or>
         (\<exists>a ea. numberTimes w (Finite m e) = Finite a ea \<and> 0 \<le> a)"
proof -
  have wm: "0 \<le> w * m" using assms by simp
  then have s: "\<not> w * m < 0" "\<bar>w * m\<bar> = w * m" by simp_all
  show ?thesis
  proof (cases "0 \<le> e")
    case True
    then have "numberTimes w (Finite m e) = doubleOfRatio False (w * m * 2 ^ nat e) 1"
      by (simp add: numberTimes_def s)
    moreover have "0 \<le> w * m * 2 ^ nat e" using wm by simp
    ultimately show ?thesis using doubleOfRatio_nonneg [of "w * m * 2 ^ nat e" 1] by simp
  next
    case False
    then have "numberTimes w (Finite m e) = doubleOfRatio False (w * m) (2 ^ nat (- e))"
      by (simp add: numberTimes_def s)
    then show ?thesis using doubleOfRatio_nonneg [OF wm, of "2 ^ nat (- e)"] by simp
  qed
qed

lemma numberPlus_floor_lower:
  assumes a: "0 \<le> a" and l0: "0 \<le> lo" and l52: "lo \<le> 2 ^ 52"
  shows "numberFloor (numberPlus (Finite a ea) lo) = PosInfinity \<or>
         (\<exists>d. numberFloor (numberPlus (Finite a ea) lo) = Whole d \<and> lo \<le> d)"
proof -
  define s where "s = (if 0 \<le> ea then a * 2 ^ nat ea + lo else a + lo * 2 ^ nat (- ea))"
  define q :: int where "q = (if 0 \<le> ea then 1 else 2 ^ nat (- ea))"
  have s0: "0 \<le> s" using a l0 by (simp add: s_def)
  have q0: "0 < q" by (simp add: q_def)
  have lq: "lo * q \<le> s" using a by (simp add: s_def q_def)
  have P: "numberPlus (Finite a ea) lo = doubleOfRatio False s q"
    using s0 by (auto simp: numberPlus_def Let_def s_def q_def)
  from doubleOfRatio_lower [OF s0 q0 l0 l52 lq]
  show ?thesis
  proof
    assume "doubleOfRatio False s q = Infinity False"
    then show ?thesis by (simp add: P numberFloor_def)
  next
    assume "\<exists>b eb. doubleOfRatio False s q = Finite b eb
            \<and> (0 \<le> eb \<longrightarrow> lo \<le> b * 2 ^ nat eb) \<and> (eb < 0 \<longrightarrow> lo * 2 ^ nat (- eb) \<le> b)"
    then obtain b eb where D: "doubleOfRatio False s q = Finite b eb"
      and hi: "0 \<le> eb \<longrightarrow> lo \<le> b * 2 ^ nat eb"
      and lw: "eb < 0 \<longrightarrow> lo * 2 ^ nat (- eb) \<le> b" by blast
    have "lo \<le> (if 0 \<le> eb then b * 2 ^ nat eb else b div 2 ^ nat (- eb))"
    proof (cases "0 \<le> eb")
      case True
      with hi show ?thesis by simp
    next
      case False
      with lw have "lo * 2 ^ nat (- eb) \<le> b" by simp
      then have "lo \<le> b div 2 ^ nat (- eb)" by (intro div_ge) simp_all
      with False show ?thesis by simp
    qed
    then show ?thesis by (simp add: P D numberFloor_def)
  qed
qed

lemma randomInt_lower:
  assumes r: "unitInterval r" and l0: "0 \<le> lo" and lh: "lo \<le> hi" and l52: "lo \<le> 2 ^ 52"
  shows "randomInt r lo hi = PosInfinity \<or> (\<exists>d. randomInt r lo hi = Whole d \<and> lo \<le> d)"
proof -
  from r obtain m e where rm: "r = Finite m e" and m0: "0 \<le> m"
    by (cases r) (auto simp: unitInterval_def)
  have w: "0 \<le> hi - lo + 1" using lh by simp
  from numberTimes_nonneg [OF w m0, of e]
  show ?thesis
  proof
    assume "numberTimes (hi - lo + 1) (Finite m e) = Infinity False"
    then show ?thesis by (simp add: randomInt_def rm numberPlus_def numberFloor_def)
  next
    assume "\<exists>a ea. numberTimes (hi - lo + 1) (Finite m e) = Finite a ea \<and> 0 \<le> a"
    then obtain a ea where X: "numberTimes (hi - lo + 1) (Finite m e) = Finite a ea"
      and a0: "0 \<le> a" by blast
    from numberPlus_floor_lower [OF a0 l0 l52, of ea]
    show ?thesis by (simp add: randomInt_def rm X)
  qed
qed

lemma roundRatio_le:
  assumes q: "0 < q" and le: "p \<le> c * q"
  shows "roundRatio p q \<le> c"
proof -
  have d: "p div q \<le> c"
  proof -
    have "p div q \<le> (c * q) div q" using le q by (rule zdiv_mono1)
    then show ?thesis using q by simp
  qed
  show ?thesis
  proof (cases "p mod q = 0")
    case True
    then have "2 * (p mod q) < q" using q by simp
    then show ?thesis using d by (simp add: roundRatio_def Let_def)
  next
    case False
    have "p div q \<noteq> c"
    proof
      assume eq: "p div q = c"
      have "p = q * (p div q) + p mod q" by simp
      with eq have "p = q * c + p mod q" by simp
      moreover have "0 < p mod q" using False q pos_mod_sign [of q p] by linarith
      ultimately have "c * q < p" by (simp add: mult.commute)
      with le show False by simp
    qed
    with d have "p div q + 1 \<le> c" by simp
    then show ?thesis using d by (simp add: roundRatio_def Let_def)
  qed
qed

lemma roundRatio_zero: "0 < q \<Longrightarrow> roundRatio 0 q = 0"
  by (simp add: roundRatio_def Let_def)

lemma roundRatio_nonneg: "0 \<le> p \<Longrightarrow> 0 < q \<Longrightarrow> 0 \<le> roundRatio p q"
proof -
  assume p: "0 \<le> p" and q: "0 < q"
  have "0 \<le> p div q" using p q by (simp add: pos_imp_zdiv_nonneg_iff)
  also have "\<dots> \<le> roundRatio p q" by (rule roundRatio_ge_div [OF q])
  finally show ?thesis .
qed

lemma pow2_split: "a \<le> b \<Longrightarrow> (2::int) ^ b = 2 ^ a * 2 ^ (b - a)"
  by (simp add: power_add [symmetric])

lemma mult_cancel_le:
  assumes q: "0 < (q::int)" and le: "q * a \<le> b * q"
  shows "a \<le> b"
proof -
  from le have "a * q \<le> b * q" by (simp add: mult.commute)
  then show ?thesis using q by (simp add: mult_le_cancel_right)
qed

lemma exponent_small:
  assumes p: "0 < p" and q: "0 < q" and M: "M < 2 ^ 52" and le: "p * 2 ^ k \<le> M * q"
    and lg: "atLeastPow2 p q lg"
  shows "int k + lg < 52"
proof (rule ccontr)
  assume "\<not> int k + lg < 52"
  then have ge: "52 \<le> int k + lg" by simp
  show False
  proof (cases "0 \<le> lg")
    case True
    with lg have "q * 2 ^ nat lg \<le> p" by (simp add: atLeastPow2_def)
    then have "q * 2 ^ nat lg * 2 ^ k \<le> p * 2 ^ k" by (rule mult_right_mono) simp
    also note le
    finally have "q * 2 ^ nat lg * 2 ^ k \<le> M * q" .
    then have "q * (2 ^ nat lg * 2 ^ k) \<le> M * q" by (simp only: mult.assoc)
    then have "2 ^ nat lg * 2 ^ k \<le> M" by (rule mult_cancel_le [OF q])
    then have "2 ^ (nat lg + k) \<le> M" by (simp add: power_add)
    moreover have "52 \<le> nat lg + k" using ge True by simp
    then have "(2::int) ^ 52 \<le> 2 ^ (nat lg + k)" by (rule power_increasing) simp
    ultimately show False using M by linarith
  next
    case False
    with lg have "q \<le> p * 2 ^ nat (- lg)" by (simp add: atLeastPow2_def)
    then have "q * 2 ^ k \<le> p * 2 ^ nat (- lg) * 2 ^ k" by (rule mult_right_mono) simp
    also have "\<dots> = (p * 2 ^ k) * 2 ^ nat (- lg)" by (simp add: mult.assoc mult.commute)
    also have "\<dots> \<le> (M * q) * 2 ^ nat (- lg)" using le by (rule mult_right_mono) simp
    also have "\<dots> = (M * 2 ^ nat (- lg)) * q" by (simp add: mult.assoc mult.commute)
    finally have A: "2 ^ k \<le> M * 2 ^ nat (- lg)" by (rule mult_cancel_le [OF q])
    have "52 + nat (- lg) \<le> k" using ge False by simp
    then have "(2::int) ^ (52 + nat (- lg)) \<le> 2 ^ k" by (rule power_increasing) simp
    then have "(2::int) ^ 52 * 2 ^ nat (- lg) \<le> 2 ^ k" by (simp only: power_add)
    also note A
    finally have "(2::int) ^ 52 * 2 ^ nat (- lg) \<le> M * 2 ^ nat (- lg)" .
    moreover have "(0::int) < 2 ^ nat (- lg)" by simp
    ultimately have "(2::int) ^ 52 \<le> M" by (simp only: mult_le_cancel_right)
    with M show False by simp
  qed
qed

lemma doubleOfRatio_upper:
  assumes p: "0 \<le> p" and q: "0 < q" and M: "M < 2 ^ 52" and k: "k \<le> 1074"
    and le: "p * 2 ^ k \<le> M * q"
  shows "\<exists>b eb. doubleOfRatio False p q = Finite b eb \<and> 0 \<le> b
            \<and> (0 \<le> eb \<longrightarrow> b * 2 ^ nat eb * 2 ^ k \<le> M)
            \<and> (eb < 0 \<longrightarrow> b * 2 ^ k \<le> M * 2 ^ nat (- eb))"
proof -
  define B :: int where "B = 2 ^ 52"
  have B2: "(2::int) ^ 53 = 2 * B" by (simp add: B_def)
  have B0: "0 < B" by (simp add: B_def)
  define t where "t = bitLength p - bitLength q"
  define lg where "lg = (if atLeastPow2 p q t then t else t - 1)"
  define e where "e = max (lg - 52) (- 1074)"
  define m where "m = (if e < 0 then roundRatio (p * 2 ^ nat (- e)) q else roundRatio p (q * 2 ^ nat e))"
  define m' where "m' = (if m = 2 * B then B else m)"
  define e' where "e' = (if m = 2 * B then e + 1 else e)"
  have D: "doubleOfRatio False p q =
        (if m' = 0 then Finite 0 0 else if e' > 971 then Infinity False else Finite m' e')"
    unfolding m'_def e'_def
    unfolding B2 [symmetric]
    unfolding B_def m_def e_def lg_def t_def
    by (rule doubleOfRatio_cases)
  have M0: "0 \<le> M"
  proof -
    have "0 \<le> p * 2 ^ k" using p by simp
    with le have "0 \<le> M * q" by linarith
    then show ?thesis using q by (simp add: zero_le_mult_iff)
  qed
  show ?thesis
  proof (cases "p = 0")
    case True
    then have "m = 0" using q by (simp add: m_def roundRatio_zero)
    then have "doubleOfRatio False p q = Finite 0 0" using D B0 by (simp add: m'_def)
    with M0 show ?thesis by simp
  next
    case False
    with p have pp: "0 < p" by simp
    from atLeastPow2_lg [OF pp q] have "atLeastPow2 p q lg" by (simp only: lg_def t_def)
    from exponent_small [OF pp q M le this] have small: "int k + lg < 52" .
    have e0: "e < 0" using small by (simp add: e_def)
    have ke: "k \<le> nat (- e)" using small k by (simp add: e_def)
    have mdef: "m = roundRatio (p * 2 ^ nat (- e)) q" using e0 by (simp add: m_def)
    have sp: "(2::int) ^ nat (- e) = 2 ^ k * 2 ^ (nat (- e) - k)" by (rule pow2_split [OF ke])
    have "p * 2 ^ nat (- e) = (p * 2 ^ k) * 2 ^ (nat (- e) - k)" by (simp add: sp mult.assoc)
    also have "\<dots> \<le> (M * q) * 2 ^ (nat (- e) - k)" using le by (rule mult_right_mono) simp
    also have "\<dots> = (M * 2 ^ (nat (- e) - k)) * q" by (simp add: mult.assoc mult.commute)
    finally have "m \<le> M * 2 ^ (nat (- e) - k)" unfolding mdef by (rule roundRatio_le [OF q])
    then have "m * 2 ^ k \<le> (M * 2 ^ (nat (- e) - k)) * 2 ^ k" by (rule mult_right_mono) simp
    also have "\<dots> = M * 2 ^ nat (- e)" by (simp add: sp mult.assoc mult.commute)
    finally have mk: "m * 2 ^ k \<le> M * 2 ^ nat (- e)" .
    have m0: "0 \<le> m" unfolding mdef using p q by (intro roundRatio_nonneg) simp_all
    show ?thesis
    proof (cases "m = 2 * B")
      case m53: True
      then have me: "m' = B" "e' = e + 1" by (simp_all add: m'_def e'_def)
      have "\<not> e + 1 > 971" using e0 by simp
      then have E: "doubleOfRatio False p q = Finite B (e + 1)" using D me B0 by simp
      have s1: "(2::int) ^ nat (- e) = 2 * 2 ^ nat (- (e + 1))"
      proof -
        have "nat (- e) = Suc (nat (- (e + 1)))" using e0 by simp
        then show ?thesis by simp
      qed
      from mk m53 have "2 * (B * 2 ^ k) \<le> 2 * (M * 2 ^ nat (- (e + 1)))"
        by (simp add: s1 mult.assoc mult.left_commute)
      then have Bk: "B * 2 ^ k \<le> M * 2 ^ nat (- (e + 1))" by simp
      have "0 \<le> e + 1 \<longrightarrow> B * 2 ^ nat (e + 1) * 2 ^ k \<le> M"
      proof
        assume "0 \<le> e + 1"
        with e0 have "e + 1 = 0" by simp
        with Bk show "B * 2 ^ nat (e + 1) * 2 ^ k \<le> M" by simp
      qed
      moreover have "e + 1 < 0 \<longrightarrow> B * 2 ^ k \<le> M * 2 ^ nat (- (e + 1))" using Bk by simp
      ultimately show ?thesis using E B0 by simp
    next
      case False
      then have me: "m' = m" "e' = e" by (simp_all add: m'_def e'_def)
      show ?thesis
      proof (cases "m = 0")
        case True
        then have "doubleOfRatio False p q = Finite 0 0" using D me by simp
        with M0 show ?thesis by simp
      next
        case mn: False
        have "\<not> e > 971" using e0 by simp
        then have "doubleOfRatio False p q = Finite m e" using D me mn by simp
        with mk m0 e0 show ?thesis by simp
      qed
    qed
  qed
qed

lemma belowOne_unitInterval: "belowOne r \<Longrightarrow> unitInterval r"
proof (cases r)
  case (Finite m e)
  assume b: "belowOne r"
  show ?thesis
  proof (cases "m = 0")
    case True
    with Finite show ?thesis by (simp add: unitInterval_def)
  next
    case False
    with b Finite have m0: "0 \<le> m" and e: "e < 0"
      and le: "m * 2 ^ 43 \<le> (2 ^ 43 - 1) * 2 ^ nat (- e)"
      by (simp_all add: belowOne_def)
    define P :: int where "P = 2 ^ 43"
    define Q :: int where "Q = 2 ^ nat (- e)"
    have P0: "0 < P" and Q0: "0 < Q" by (simp_all add: P_def Q_def)
    from le have "m * P \<le> (P - 1) * Q" by (simp add: P_def Q_def)
    also have "\<dots> < P * Q" using P0 Q0 by (simp add: mult_strict_right_mono)
    also have "\<dots> = Q * P" by (simp add: mult.commute)
    finally have "m < Q" using P0 by (simp only: mult_less_cancel_right)
    with Finite m0 e show ?thesis by (simp add: unitInterval_def Q_def)
  qed
qed (simp_all add: belowOne_def)

lemma div_less_bound:
  assumes q: "0 < (q::int)" and lt: "b < c * q"
  shows "b div q < c"
proof (rule ccontr)
  assume "\<not> b div q < c"
  then have "c \<le> b div q" by simp
  then have "c * q \<le> (b div q) * q" using q by (simp add: mult_right_mono)
  also have "\<dots> \<le> b"
  proof -
    have "b = q * (b div q) + b mod q" by simp
    moreover have "0 \<le> b mod q" using q by simp
    ultimately have "q * (b div q) \<le> b" by linarith
    then show ?thesis by (simp add: mult.commute)
  qed
  finally show False using lt by simp
qed

lemma numberTimes_upper:
  assumes r: "belowOne (Finite m e)" and w: "1 \<le> w" and M: "w * 2 ^ 43 - 1 < 2 ^ 52"
  shows "\<exists>a ea. numberTimes w (Finite m e) = Finite a ea \<and> 0 \<le> a
            \<and> (0 \<le> ea \<longrightarrow> a * 2 ^ nat ea * 2 ^ 43 \<le> w * 2 ^ 43 - 1)
            \<and> (ea < 0 \<longrightarrow> a * 2 ^ 43 \<le> (w * 2 ^ 43 - 1) * 2 ^ nat (- ea))"
proof -
  define P :: int where "P = 2 ^ 43"
  have P1: "1 \<le> P" by (simp add: P_def)
  from r have m0: "0 \<le> m" by (simp add: belowOne_def)
  have wm: "0 \<le> w * m" using w m0 by simp
  then have s: "\<not> w * m < 0" "\<bar>w * m\<bar> = w * m" by simp_all
  have k: "(43::nat) \<le> 1074" by simp
  have M1: "0 \<le> w * P - 1"
  proof -
    have "1 * 1 \<le> w * P" using w P1 by (intro mult_mono) simp_all
    then show ?thesis by simp
  qed
  show ?thesis
  proof (cases "m = 0")
    case True
    have T: "numberTimes w (Finite m e) = doubleOfRatio False 0 (if 0 \<le> e then 1 else 2 ^ nat (- e))"
      using True by (simp add: numberTimes_def)
    have "0 * 2 ^ 43 \<le> (w * 2 ^ 43 - 1) * (if 0 \<le> e then 1 else 2 ^ nat (- e))"
      using M1 by (simp add: P_def)
    from doubleOfRatio_upper [OF _ _ M k this] show ?thesis by (simp add: T)
  next
    case False
    with r have e: "e < 0" and le: "m * P \<le> (P - 1) * 2 ^ nat (- e)"
      by (simp_all add: belowOne_def P_def)
    define Q :: int where "Q = 2 ^ nat (- e)"
    have Q0: "0 < Q" by (simp add: Q_def)
    have T: "numberTimes w (Finite m e) = doubleOfRatio False (w * m) Q"
      using e by (simp add: numberTimes_def s Q_def)
    have "w * (m * P) \<le> w * ((P - 1) * Q)"
      using le w unfolding Q_def by (intro mult_left_mono) simp_all
    also have "\<dots> = (w * P - w) * Q" by (simp add: algebra_simps)
    also have "\<dots> \<le> (w * P - 1) * Q" using w Q0 by (intro mult_right_mono) simp_all
    finally have "(w * m) * P \<le> (w * P - 1) * Q" by (simp add: mult.assoc)
    then have "(w * m) * 2 ^ 43 \<le> (w * 2 ^ 43 - 1) * Q" by (simp only: P_def)
    from doubleOfRatio_upper [OF wm Q0 M k this] show ?thesis by (simp only: T)
  qed
qed

lemma numberPlus_upper:
  assumes a0: "0 \<le> a" and l0: "0 \<le> lo"
    and hi: "0 \<le> ea \<longrightarrow> a * 2 ^ nat ea * 2 ^ 43 \<le> M1"
    and lw: "ea < 0 \<longrightarrow> a * 2 ^ 43 \<le> M1 * 2 ^ nat (- ea)"
    and M: "M1 + lo * 2 ^ 43 < 2 ^ 52"
  shows "\<exists>b eb. numberPlus (Finite a ea) lo = Finite b eb \<and> 0 \<le> b
            \<and> (0 \<le> eb \<longrightarrow> b * 2 ^ nat eb * 2 ^ 43 \<le> M1 + lo * 2 ^ 43)
            \<and> (eb < 0 \<longrightarrow> b * 2 ^ 43 \<le> (M1 + lo * 2 ^ 43) * 2 ^ nat (- eb))"
proof -
  define P :: int where "P = 2 ^ 43"
  define s where "s = (if 0 \<le> ea then a * 2 ^ nat ea + lo else a + lo * 2 ^ nat (- ea))"
  define q :: int where "q = (if 0 \<le> ea then 1 else 2 ^ nat (- ea))"
  have s0: "0 \<le> s" using a0 l0 by (simp add: s_def)
  have q0: "0 < q" by (simp add: q_def)
  have k: "(43::nat) \<le> 1074" by simp
  have N: "numberPlus (Finite a ea) lo = doubleOfRatio False s q"
    using s0 by (auto simp: numberPlus_def Let_def s_def q_def)
  have "s * P \<le> (M1 + lo * P) * q"
  proof (cases "0 \<le> ea")
    case True
    with hi have "a * 2 ^ nat ea * P \<le> M1" by (simp add: P_def)
    then show ?thesis using True by (simp add: s_def q_def algebra_simps)
  next
    case False
    with lw have "a * P \<le> M1 * 2 ^ nat (- ea)" by (simp add: P_def)
    then show ?thesis using False by (simp add: s_def q_def algebra_simps)
  qed
  then have "s * 2 ^ 43 \<le> (M1 + lo * 2 ^ 43) * q" by (simp only: P_def)
  from doubleOfRatio_upper [OF s0 q0 M k this] show ?thesis by (simp only: N)
qed

lemma randomInt_within:
  assumes r: "belowOne r" and l0: "0 \<le> lo" and lh: "lo \<le> hi" and cap: "hi \<le> 500"
  shows "\<exists>d. randomInt r lo hi = Whole d \<and> lo \<le> d \<and> d \<le> hi"
proof -
  define P :: int where "P = 2 ^ 43"
  have P0: "0 < P" by (simp add: P_def)
  from r obtain m e where rm: "r = Finite m e" by (cases r) (auto simp: belowOne_def)
  define w where "w = hi - lo + 1"
  have w1: "1 \<le> w" using lh by (simp add: w_def)
  have "w \<le> 501" using l0 cap by (simp add: w_def)
  then have "w * P \<le> 501 * P" using P0 by (simp add: mult_right_mono)
  then have M1: "w * 2 ^ 43 - 1 < 2 ^ 52" by (simp add: P_def)
  have "hi + 1 \<le> 501" using cap by simp
  then have "(hi + 1) * P \<le> 501 * P" using P0 by (simp add: mult_right_mono)
  then have "(hi + 1) * 2 ^ 43 - 1 < 2 ^ 52" by (simp add: P_def)
  moreover have M2eq: "w * 2 ^ 43 - 1 + lo * 2 ^ 43 = (hi + 1) * 2 ^ 43 - 1"
    by (simp add: w_def algebra_simps)
  ultimately have M2: "w * 2 ^ 43 - 1 + lo * 2 ^ 43 < 2 ^ 52" by (simp only:)
  from numberTimes_upper [OF r [unfolded rm] w1 M1]
  obtain a ea where T: "numberTimes w (Finite m e) = Finite a ea" and a0: "0 \<le> a"
    and hi1: "0 \<le> ea \<longrightarrow> a * 2 ^ nat ea * 2 ^ 43 \<le> w * 2 ^ 43 - 1"
    and lw1: "ea < 0 \<longrightarrow> a * 2 ^ 43 \<le> (w * 2 ^ 43 - 1) * 2 ^ nat (- ea)"
    by blast
  from numberPlus_upper [OF a0 l0 hi1 lw1 M2]
  obtain b eb where S: "numberPlus (Finite a ea) lo = Finite b eb" and b0: "0 \<le> b"
    and hi2: "0 \<le> eb \<longrightarrow> b * 2 ^ nat eb * 2 ^ 43 \<le> (hi + 1) * 2 ^ 43 - 1"
    and lw2: "eb < 0 \<longrightarrow> b * 2 ^ 43 \<le> ((hi + 1) * 2 ^ 43 - 1) * 2 ^ nat (- eb)"
    unfolding M2eq by blast
  define d where "d = (if 0 \<le> eb then b * 2 ^ nat eb else b div 2 ^ nat (- eb))"
  have R: "randomInt r lo hi = Whole d"
    by (simp add: randomInt_def rm w_def [symmetric] T S numberFloor_def d_def)
  have up: "d \<le> hi"
  proof (cases "0 \<le> eb")
    case True
    with hi2 have "b * 2 ^ nat eb * P \<le> (hi + 1) * P - 1" by (simp add: P_def)
    then have "b * 2 ^ nat eb * P < (hi + 1) * P" by simp
    then have "b * 2 ^ nat eb < hi + 1" using P0 by (simp only: mult_less_cancel_right)
    with True show ?thesis by (simp add: d_def)
  next
    case False
    define Q :: int where "Q = 2 ^ nat (- eb)"
    have Q0: "0 < Q" by (simp add: Q_def)
    from False lw2 have "b * P \<le> ((hi + 1) * P - 1) * Q" by (simp add: P_def Q_def)
    also have "\<dots> < ((hi + 1) * P) * Q" using Q0 by (simp add: mult_strict_right_mono)
    also have "\<dots> = ((hi + 1) * Q) * P" by (simp add: mult.assoc mult.commute)
    finally have "b < (hi + 1) * Q" using P0 by (simp only: mult_less_cancel_right)
    then have "b div Q < hi + 1" by (rule div_less_bound [OF Q0])
    with False show ?thesis by (simp add: d_def Q_def)
  qed
  have "lo \<le> 2 ^ 52" using lh cap by simp
  from randomInt_lower [OF belowOne_unitInterval [OF r] l0 lh this] R
  have "lo \<le> d" by simp
  with R up show ?thesis by simp
qed

lemma drawsWithin_belowOne:
  assumes "\<forall>k. belowOne (random L k)" "0 \<le> mb" "mb \<le> xb" "xb \<le> MAX_BATCH_SIZE"
  shows "drawsWithin L mb xb"
  unfolding drawsWithin_def
proof
  fix k
  have "xb \<le> 500" using assms(4) by (simp add: MAX_BATCH_SIZE_def)
  from randomInt_within [OF _ assms(2,3) this, of "random L (2 * k)"] assms(1)
  obtain d where "randomInt (random L (2 * k)) mb xb = Whole d" "d \<le> xb" by blast
  then show "case randomInt (random L (2 * k)) mb xb of
            Whole d \<Rightarrow> d \<le> xb | PosInfinity \<Rightarrow> False | NegInfinity \<Rightarrow> False | NotNumber \<Rightarrow> False"
    by simp
qed

subsection \<open>The scheduler loop: rules\<close>

lemma slice_in_range:
  assumes "0 \<le> i" "0 \<le> b" "i + b \<le> int (length xs)"
  shows "slice xs i (i + b) = take (nat b) (drop (nat i) xs)"
  using assms by (simp add: slice_def Let_def min_def)

lemma batches_append: "batches (xs @ ys) = batches xs @ batches ys"
  by (induction xs rule: batches.induct) auto

lemma scheduler_unfold:
  "scheduler L mb xb mi xi t a ad i n evs =
     (if i < int (length ad) then
        (case batchSizeAt L mb xb ad i n of
           None \<Rightarrow> Some \<lparr>final_i = i, events = evs, failure = Some CursorNotInteger\<rparr>
         | Some b \<Rightarrow>
             if \<not> accepted L n
             then Some \<lparr>final_i = i, events = evs, failure = Some SubmissionError\<rparr>
             else scheduler L mb xb mi xi t a ad (i + b) (n + 1)
                    (evs @ iterationEvents L mi xi t a ad i n b))
      else Some \<lparr>final_i = i, events = evs, failure = None\<rparr>)"
  by (subst scheduler.simps)
     (simp add: Let_def batchSizeAt_def iterationEvents_def split: option.splits)

lemma scheduler_invariant:
  fixes I :: "int \<Rightarrow> nat \<Rightarrow> event list \<Rightarrow> bool"
  assumes run: "scheduler L mb xb mi xi t a ad i n evs = Some y"
    and init: "I i n evs"
    and step: "\<And>i n evs b. I i n evs \<Longrightarrow> i < int (length ad) \<Longrightarrow> accepted L n \<Longrightarrow>
        batchSizeAt L mb xb ad i n = Some b \<Longrightarrow>
        I (i + b) (n + 1) (evs @ iterationEvents L mi xi t a ad i n b)"
  shows "\<exists>i' n' evs'. I i' n' evs' \<and>
          ((\<not> i' < int (length ad) \<and> y = \<lparr>final_i = i', events = evs', failure = None\<rparr>) \<or>
           (i' < int (length ad) \<and> batchSizeAt L mb xb ad i' n' \<noteq> None \<and> \<not> accepted L n' \<and>
              y = \<lparr>final_i = i', events = evs', failure = Some SubmissionError\<rparr>) \<or>
           (i' < int (length ad) \<and> batchSizeAt L mb xb ad i' n' = None \<and>
              y = \<lparr>final_i = i', events = evs', failure = Some CursorNotInteger\<rparr>))"
proof -
  let ?Q = "\<lambda>y. \<exists>i' n' evs'. I i' n' evs' \<and>
          ((\<not> i' < int (length ad) \<and> y = \<lparr>final_i = i', events = evs', failure = None\<rparr>) \<or>
           (i' < int (length ad) \<and> batchSizeAt L mb xb ad i' n' \<noteq> None \<and> \<not> accepted L n' \<and>
              y = \<lparr>final_i = i', events = evs', failure = Some SubmissionError\<rparr>) \<or>
           (i' < int (length ad) \<and> batchSizeAt L mb xb ad i' n' = None \<and>
              y = \<lparr>final_i = i', events = evs', failure = Some CursorNotInteger\<rparr>))"
  let ?P = "\<lambda>L' mb' xb' mi' xi' t' a' ad' i n evs y.
      L' = L \<and> mb' = mb \<and> xb' = xb \<and> mi' = mi \<and> xi' = xi \<and> t' = t \<and> a' = a \<and> ad' = ad
        \<longrightarrow> I i n evs \<longrightarrow> ?Q y"
  have "?P L mb xb mi xi t a ad i n evs y"
  proof (rule scheduler.raw_induct [where P = ?P, OF _ run], intro impI, elim conjE)
    fix sch :: "ledger \<Rightarrow> int \<Rightarrow> int \<Rightarrow> int \<Rightarrow> int \<Rightarrow> string \<Rightarrow> string \<Rightarrow> string list
                   \<Rightarrow> int \<Rightarrow> nat \<Rightarrow> event list \<Rightarrow> run option"
    fix L' mb' xb' mi' xi' t' a' ad' i n evs y
    assume IH: "\<And>L' mb' xb' mi' xi' t' a' ad' i n evs y.
        sch L' mb' xb' mi' xi' t' a' ad' i n evs = Some y \<Longrightarrow> ?P L' mb' xb' mi' xi' t' a' ad' i n evs y"
    assume body: "(if i < int (length ad') then
        (case clip (randomInt (random L' (2 * n)) mb' xb') i (int (length ad')) of
           None \<Rightarrow> Some \<lparr>final_i = i, events = evs, failure = Some CursorNotInteger\<rparr>
         | Some batchSize \<Rightarrow>
            (let batchAddresses = slice ad' i (i + batchSize)
             in if \<not> accepted L' n
                then Some \<lparr>final_i = i, events = evs, failure = Some SubmissionError\<rparr>
                else
                  (let interval = randomInt (random L' (2 * n + 1)) mi' xi'
                   in sch L' mb' xb' mi' xi' t' a' ad'
                        (i + batchSize) (n + 1)
                        (evs @ [Submit t' batchAddresses a', Wait interval]))))
      else Some \<lparr>final_i = i, events = evs, failure = None\<rparr>) = Some y"
    assume eqs: "L' = L" "mb' = mb" "xb' = xb" "mi' = mi" "xi' = xi" "t' = t" "a' = a" "ad' = ad"
    assume inv: "I i n evs"
    note body = body [unfolded eqs]
    show "?Q y"
    proof (cases "i < int (length ad)")
      case False
      with body have "y = \<lparr>final_i = i, events = evs, failure = None\<rparr>" by simp
      with inv False show ?thesis by blast
    next
      case True
      show ?thesis
      proof (cases "batchSizeAt L mb xb ad i n")
        case None
        with body True have "y = \<lparr>final_i = i, events = evs, failure = Some CursorNotInteger\<rparr>"
          by (simp add: batchSizeAt_def)
        with inv True None show ?thesis by blast
      next
        case (Some b)
        show ?thesis
        proof (cases "accepted L n")
          case False
          with body True Some
          have "y = \<lparr>final_i = i, events = evs, failure = Some SubmissionError\<rparr>"
            by (simp add: Let_def batchSizeAt_def)
          moreover from Some have "batchSizeAt L mb xb ad i n \<noteq> None" by simp
          ultimately show ?thesis using inv True False by blast
        next
          case acc: True
          from body True acc Some
          have "sch L mb xb mi xi t a ad (i + b) (n + 1)
                   (evs @ iterationEvents L mi xi t a ad i n b) = Some y"
            by (simp add: Let_def batchSizeAt_def iterationEvents_def)
          from IH [OF this] step [OF inv True acc Some] show ?thesis by simp
        qed
      qed
    qed
  qed
  with init show ?thesis by simp
qed

lemma scheduler_returns:
  fixes I :: "int \<Rightarrow> nat \<Rightarrow> event list \<Rightarrow> bool"
  assumes acc: "\<forall>k. accepted L k"
    and init: "I i n evs"
    and step: "\<And>i n evs b. I i n evs \<Longrightarrow> i < int (length ad) \<Longrightarrow>
        batchSizeAt L mb xb ad i n = Some b \<Longrightarrow>
        I (i + b) (n + 1) (evs @ iterationEvents L mi xi t a ad i n b)"
    and progress: "\<And>i n evs. I i n evs \<Longrightarrow> i < int (length ad) \<Longrightarrow>
        \<exists>b. batchSizeAt L mb xb ad i n = Some b \<and> 0 < b"
  shows "\<exists>y. scheduler L mb xb mi xi t a ad i n evs = Some y"
  using init
proof (induction "nat (int (length ad) - i)" arbitrary: i n evs rule: less_induct)
  case less
  show ?case
  proof (cases "i < int (length ad)")
    case False
    then show ?thesis by (subst scheduler_unfold) simp
  next
    case True
    from progress [OF less.prems True]
    obtain b where b: "batchSizeAt L mb xb ad i n = Some b" and pos: "0 < b" by blast
    have "nat (int (length ad) - (i + b)) < nat (int (length ad) - i)"
      using pos True by simp
    from less.hyps [OF this step [OF less.prems True b]]
    show ?thesis using True acc b by (subst scheduler_unfold) simp
  qed
qed

lemma scheduler_failure:
  assumes "scheduler L mb xb mi xi t a ad i n evs = Some y"
  shows "failure y = None \<or> failure y = Some SubmissionError
           \<or> failure y = Some CursorNotInteger"
  using scheduler_invariant [OF assms, where I = "\<lambda>i n evs. True"] by auto

lemma validateConfig_None:
  "validateConfig mb xb mi xi = None \<longleftrightarrow> mb \<le> xb \<and> mi \<le> xi \<and> xb \<le> MAX_BATCH_SIZE"
  by (simp add: validateConfig_def)

lemma batchSizeAt_bounds:
  assumes cfg: "0 \<le> mb" "mb \<le> xb" "xb \<le> MAX_BATCH_SIZE" and rnd: "randomValid L"
    and i: "0 \<le> i" "i < int (length ad)"
  shows "\<exists>b. batchSizeAt L mb xb ad i n = Some b \<and> min mb (int (length ad) - i) \<le> b
           \<and> i + b \<le> int (length ad) \<and> (i + b < int (length ad) \<longrightarrow> mb \<le> b)"
proof -
  have "mb \<le> 500" using cfg by (simp add: MAX_BATCH_SIZE_def)
  then have l52: "mb \<le> 2 ^ 52" by simp
  from rnd have "unitInterval (random L (2 * n))" by (simp add: randomValid_def)
  from randomInt_lower [OF this cfg(1,2) l52]
  show ?thesis
  proof
    assume "randomInt (random L (2 * n)) mb xb = PosInfinity"
    then show ?thesis using i by (simp add: batchSizeAt_def clip_def)
  next
    assume "\<exists>d. randomInt (random L (2 * n)) mb xb = Whole d \<and> mb \<le> d"
    then obtain d where "randomInt (random L (2 * n)) mb xb = Whole d" "mb \<le> d" by blast
    then show ?thesis using i by (simp add: batchSizeAt_def clip_def)
  qed
qed

lemma batchSizeAt_upper:
  assumes "drawsWithin L mb xb" "batchSizeAt L mb xb ad i n = Some b"
  shows "b \<le> xb"
proof -
  from assms(1) have "case randomInt (random L (2 * n)) mb xb of
            Whole d \<Rightarrow> d \<le> xb | PosInfinity \<Rightarrow> False | NegInfinity \<Rightarrow> False | NotNumber \<Rightarrow> False"
    unfolding drawsWithin_def by (rule spec)
  with assms(2) show ?thesis
    by (auto simp: batchSizeAt_def clip_def split: floored.splits if_splits)
qed

lemma schedInv_step:
  assumes cfg: "0 \<le> mb" "mb \<le> xb" "xb \<le> MAX_BATCH_SIZE" and rnd: "randomValid L"
    and inv: "schedInv mb ad i n evs" and lt: "i < int (length ad)"
    and bs: "batchSizeAt L mb xb ad i n = Some b"
  shows "schedInv mb ad (i + b) (n + 1) (evs @ iterationEvents L mi xi t a ad i n b)"
proof -
  from inv have i0: "0 \<le> i" by (simp add: schedInv_def)
  from batchSizeAt_bounds [OF cfg rnd i0 lt, of n] bs
  have B: "min mb (int (length ad) - i) \<le> b" "i + b \<le> int (length ad)"
    "i + b < int (length ad) \<longrightarrow> mb \<le> b" by simp_all
  have b0: "0 \<le> b" using B(1) cfg(1) lt by simp
  have sl: "slice ad i (i + b) = take (nat b) (drop (nat i) ad)"
    by (rule slice_in_range [OF i0 b0 B(2)])
  have len: "int (length (slice ad i (i + b))) = b"
    using sl b0 B(2) i0 by simp
  have bt: "batches (evs @ iterationEvents L mi xi t a ad i n b)
              = batches evs @ [slice ad i (i + b)]"
    by (simp add: batches_append iterationEvents_def)
  have cc: "concat (batches evs @ [slice ad i (i + b)]) = take (nat (i + b)) ad"
    using inv sl i0 b0 by (simp add: schedInv_def nat_add_distrib take_add)
  have pos: "0 < mb \<Longrightarrow> slice ad i (i + b) \<noteq> []"
    using len B(1) lt by auto
  from inv have I: "i \<le> int (length ad)" "concat (batches evs) = take (nat i) ad"
    "length (batches evs) = n"
    "\<forall>b \<in> set (batches evs). mb \<le> int (length b)"
    "0 < mb \<longrightarrow> [] \<notin> set (batches evs)"
    using lt by (simp_all add: schedInv_def)
  have 1: "0 \<le> i + b" using i0 b0 by simp
  have 2: "length (batches evs @ [slice ad i (i + b)]) = n + 1" using I(3) by simp
  have 3: "i + b < int (length ad) \<longrightarrow>
             (\<forall>c \<in> set (batches evs @ [slice ad i (i + b)]). mb \<le> int (length c))"
    using I(4) B(3) len by auto
  have 4: "\<forall>c \<in> set (butlast (batches evs @ [slice ad i (i + b)])). mb \<le> int (length c)"
    using I(4) by (simp add: butlast_append)
  have 5: "0 < mb \<longrightarrow> [] \<notin> set (batches evs @ [slice ad i (i + b)])"
    using I(5) pos by auto
  show ?thesis
    unfolding schedInv_def bt
    using 1 B(2) cc 2 3 4 5 by blast
qed

lemma sizesWithin_step:
  assumes dw: "drawsWithin L mb xb" and inv: "sizesWithin xb evs"
    and bs: "batchSizeAt L mb xb ad i n = Some b"
    and len: "int (length (slice ad i (i + b))) \<le> max b 0"
    and xb: "0 \<le> xb"
  shows "sizesWithin xb (evs @ iterationEvents L mi xi t a ad i n b)"
  using inv batchSizeAt_upper [OF dw bs] len xb
  by (auto simp: sizesWithin_def batches_append iterationEvents_def)

lemma schedInv_init: "schedInv mb ad 0 0 []"
  by (simp add: schedInv_def)

lemma scheduler_complete:
  assumes cfg: "0 \<le> mb" "mb \<le> xb" "xb \<le> MAX_BATCH_SIZE" and rnd: "randomValid L"
    and run: "scheduler L mb xb mi xi t a ad 0 0 [] = Some y"
    and ok: "failure y = None"
  shows "final_i y = int (length ad) \<and>
         schedInv mb ad (int (length ad)) (length (batches (events y))) (events y)"
proof -
  from scheduler_invariant [OF run, where I = "schedInv mb ad", OF schedInv_init]
       schedInv_step [OF cfg rnd]
  obtain i' n' evs' where I: "schedInv mb ad i' n' evs'"
    and r: "(\<not> i' < int (length ad) \<and> y = \<lparr>final_i = i', events = evs', failure = None\<rparr>) \<or>
           (i' < int (length ad) \<and> batchSizeAt L mb xb ad i' n' \<noteq> None \<and> \<not> accepted L n' \<and>
              y = \<lparr>final_i = i', events = evs', failure = Some SubmissionError\<rparr>) \<or>
           (i' < int (length ad) \<and> batchSizeAt L mb xb ad i' n' = None \<and>
              y = \<lparr>final_i = i', events = evs', failure = Some CursorNotInteger\<rparr>)"
    by blast
  from r ok have fin: "\<not> i' < int (length ad)" and y: "y = \<lparr>final_i = i', events = evs', failure = None\<rparr>"
    by auto
  from I fin have "i' = int (length ad)" by (simp add: schedInv_def)
  moreover from I have "n' = length (batches evs')" by (simp add: schedInv_def)
  ultimately show ?thesis using I y by simp
qed

lemma scheduler_sizes:
  assumes cfg: "0 \<le> mb" "mb \<le> xb" "xb \<le> MAX_BATCH_SIZE" and rnd: "randomValid L"
    and dw: "drawsWithin L mb xb"
    and run: "scheduler L mb xb mi xi t a ad 0 0 [] = Some y"
  shows "sizesWithin xb (events y)"
proof -
  let ?I = "\<lambda>i n evs. schedInv mb ad i n evs \<and> sizesWithin xb evs"
  have init: "?I 0 0 []" by (simp add: schedInv_init sizesWithin_def)
  have step: "?I (i + b) (n + 1) (evs @ iterationEvents L mi xi t a ad i n b)"
    if I: "?I i n evs" and lt: "i < int (length ad)" and acc: "accepted L n"
      and bs: "batchSizeAt L mb xb ad i n = Some b" for i n evs b
  proof
    from I have inv: "schedInv mb ad i n evs" and sw: "sizesWithin xb evs" by simp_all
    show "schedInv mb ad (i + b) (n + 1) (evs @ iterationEvents L mi xi t a ad i n b)"
      by (rule schedInv_step [OF cfg rnd inv lt bs])
    from inv have i0: "0 \<le> i" by (simp add: schedInv_def)
    from batchSizeAt_bounds [OF cfg rnd i0 lt, of n] bs
    have B: "min mb (int (length ad) - i) \<le> b" "i + b \<le> int (length ad)" by simp_all
    have b0: "0 \<le> b" using B(1) cfg(1) lt by simp
    have "slice ad i (i + b) = take (nat b) (drop (nat i) ad)"
      by (rule slice_in_range [OF i0 b0 B(2)])
    then have len: "int (length (slice ad i (i + b))) \<le> max b 0" by simp
    have "0 \<le> xb" using cfg by simp
    from sizesWithin_step [OF dw sw bs len this]
    show "sizesWithin xb (evs @ iterationEvents L mi xi t a ad i n b)" .
  qed
  have "\<exists>i' n' evs'. ?I i' n' evs' \<and>
          ((\<not> i' < int (length ad) \<and> y = \<lparr>final_i = i', events = evs', failure = None\<rparr>) \<or>
           (i' < int (length ad) \<and> batchSizeAt L mb xb ad i' n' \<noteq> None \<and> \<not> accepted L n' \<and>
              y = \<lparr>final_i = i', events = evs', failure = Some SubmissionError\<rparr>) \<or>
           (i' < int (length ad) \<and> batchSizeAt L mb xb ad i' n' = None \<and>
              y = \<lparr>final_i = i', events = evs', failure = Some CursorNotInteger\<rparr>))"
    using run init
  proof (rule scheduler_invariant [where I = ?I])
    fix i n evs b
    assume "?I i n evs" "i < int (length ad)" "accepted L n" "batchSizeAt L mb xb ad i n = Some b"
    then show "?I (i + b) (n + 1) (evs @ iterationEvents L mi xi t a ad i n b)"
      by (rule step)
  qed
  then obtain i' n' evs' where sw: "sizesWithin xb evs'" and ev: "events y = evs'"
    by fastforce
  then show ?thesis by simp
qed

lemma scheduler_terminates:
  assumes cfg: "1 \<le> mb" "mb \<le> xb" "xb \<le> MAX_BATCH_SIZE" and rnd: "randomValid L"
    and acc: "\<forall>k. accepted L k"
  shows "\<exists>y. scheduler L mb xb mi xi t a ad 0 0 [] = Some y \<and> failure y = None
            \<and> final_i y = int (length ad)"
proof -
  have cfg0: "0 \<le> mb" using cfg(1) by simp
  have "\<exists>y. scheduler L mb xb mi xi t a ad 0 0 [] = Some y"
  proof (rule scheduler_returns [where I = "schedInv mb ad", OF acc schedInv_init])
    fix i n evs b
    assume "schedInv mb ad i n evs" "i < int (length ad)" "batchSizeAt L mb xb ad i n = Some b"
    then show "schedInv mb ad (i + b) (n + 1) (evs @ iterationEvents L mi xi t a ad i n b)"
      by (rule schedInv_step [OF cfg0 cfg(2,3) rnd])
  next
    fix i n evs assume I: "schedInv mb ad i n evs" and lt: "i < int (length ad)"
    then have "0 \<le> i" by (simp add: schedInv_def)
    from batchSizeAt_bounds [OF cfg0 cfg(2,3) rnd this lt, of n] cfg(1) lt
    show "\<exists>b. batchSizeAt L mb xb ad i n = Some b \<and> 0 < b" by auto
  qed
  then obtain y where run: "scheduler L mb xb mi xi t a ad 0 0 [] = Some y" ..
  have "failure y = None"
  proof -
    from scheduler_invariant [OF run, where I = "schedInv mb ad", OF schedInv_init]
         schedInv_step [OF cfg0 cfg(2,3) rnd]
    obtain i' n' evs' where I: "schedInv mb ad i' n' evs'"
      and r: "(\<not> i' < int (length ad) \<and> y = \<lparr>final_i = i', events = evs', failure = None\<rparr>) \<or>
           (i' < int (length ad) \<and> batchSizeAt L mb xb ad i' n' \<noteq> None \<and> \<not> accepted L n' \<and>
              y = \<lparr>final_i = i', events = evs', failure = Some SubmissionError\<rparr>) \<or>
           (i' < int (length ad) \<and> batchSizeAt L mb xb ad i' n' = None \<and>
              y = \<lparr>final_i = i', events = evs', failure = Some CursorNotInteger\<rparr>)"
      by blast
    from I have i0: "0 \<le> i'" by (simp add: schedInv_def)
    have "i' < int (length ad) \<Longrightarrow> batchSizeAt L mb xb ad i' n' \<noteq> None"
      using batchSizeAt_bounds [OF cfg0 cfg(2,3) rnd i0, of ad n'] by auto
    with r acc show ?thesis by auto
  qed
  with scheduler_complete [OF cfg0 cfg(2,3) rnd run] run show ?thesis by blast
qed

lemma concat_nth_slice:
  assumes "concat bs = xs" "k < length bs"
  shows "bs ! k = take (length (bs ! k)) (drop (length (concat (take k bs))) xs)"
proof -
  have "bs = take k bs @ bs ! k # drop (Suc k) bs"
    using assms(2) by (rule id_take_nth_drop)
  then have "concat bs = concat (take k bs) @ bs ! k @ concat (drop (Suc k) bs)"
    by (metis concat.simps(2) concat_append)
  with assms(1) have "xs = concat (take k bs) @ bs ! k @ concat (drop (Suc k) bs)"
    by simp
  then show ?thesis by simp
qed

lemma length_concat_fixed:
  "(\<forall>b \<in> set bs. length b = K) \<Longrightarrow> length (concat bs) = K * length bs"
  by (induction bs) auto

lemma fixed_size_count:
  fixes K :: nat
  assumes K: "1 \<le> K"
    and all: "\<forall>b \<in> set (butlast bs). length b = K"
    and lst: "bs \<noteq> [] \<longrightarrow> 1 \<le> length (last bs) \<and> length (last bs) \<le> K"
  shows "int (length bs) = \<lceil>real (length (concat bs)) / real K\<rceil>"
    and "\<not> K dvd length (concat bs) \<Longrightarrow> length (last bs) = length (concat bs) mod K"
proof -
  show "int (length bs) = \<lceil>real (length (concat bs)) / real K\<rceil>"
  proof (cases "bs = []")
    case True then show ?thesis by simp
  next
    case False
    then have bs: "bs = butlast bs @ [last bs]" by simp
    have "length (concat bs) = length (concat (butlast bs)) + length (last bs)"
      by (subst bs) simp
    then have n: "length (concat bs) = K * (length bs - 1) + length (last bs)"
      using length_concat_fixed [OF all] by simp
    from False have m: "1 \<le> length bs" by (cases bs) auto
    from lst False have l: "1 \<le> length (last bs)" "length (last bs) \<le> K" by auto
    have lo: "K * (length bs - 1) < length (concat bs)" using n l by linarith
    have "length (concat bs) \<le> K * (length bs - 1) + K" using n l by linarith
    also have "\<dots> = K * length bs" using m by (simp add: algebra_simps)
    finally have hi: "length (concat bs) \<le> K * length bs" .
    have Kp: "0 < real K" using K by simp
    have "real (length bs) - 1 < real (length (concat bs)) / real K"
    proof -
      have "real (K * (length bs - 1)) < real (length (concat bs))" using lo by (simp only: of_nat_less_iff)
      then have "real K * (real (length bs) - 1) < real (length (concat bs))" using m by (simp add: of_nat_diff)
      then show ?thesis using Kp by (simp add: pos_less_divide_eq mult.commute)
    qed
    moreover have "real (length (concat bs)) / real K \<le> real (length bs)"
    proof -
      have "real (length (concat bs)) \<le> real (K * length bs)" using hi by (simp only: of_nat_le_iff)
      then show ?thesis using Kp by (simp add: pos_divide_le_eq mult.commute)
    qed
    ultimately show ?thesis by (intro ceiling_unique [symmetric]) simp_all
  qed
next
  assume nd: "\<not> K dvd length (concat bs)"
  then have ne: "bs \<noteq> []" by auto
  then have bs: "bs = butlast bs @ [last bs]" by simp
  have "length (concat bs) = length (concat (butlast bs)) + length (last bs)"
    by (subst bs) simp
  then have n: "length (concat bs) = K * (length bs - 1) + length (last bs)"
    using length_concat_fixed [OF all] by simp
  from lst ne have l: "length (last bs) \<le> K" by auto
  have "length (last bs) \<noteq> K" using nd n by (metis dvd_add_triv_right_iff dvd_triv_left mult.commute dvd_add dvd_refl)
  with l have "length (last bs) < K" by simp
  with n show "length (last bs) = length (concat bs) mod K" by simp
qed

lemma last_batch_is_rest:
  assumes "concat bs = ad" "bs \<noteq> []"
  shows "last bs = drop (length (concat (butlast bs))) ad"
    and "length (last bs) = length ad - length (concat (butlast bs))"
proof -
  from assms(2) have "bs = butlast bs @ [last bs]" by simp
  then have "concat bs = concat (butlast bs) @ last bs"
    by (metis concat.simps(1,2) concat_append append_Nil2)
  with assms(1) have ad: "ad = concat (butlast bs) @ last bs" by simp
  then show "last bs = drop (length (concat (butlast bs))) ad" by simp
  from ad have "length ad = length (concat (butlast bs)) + length (last bs)"
    by (metis length_append)
  then show "length (last bs) = length ad - length (concat (butlast bs))" by simp
qed

lemma scheduler_stop:
  "\<not> i < int (length ad) \<Longrightarrow>
     scheduler L mb xb mi xi t a ad i n evs = Some \<lparr>final_i = i, events = evs, failure = None\<rparr>"
  by (subst scheduler_unfold) simp

lemma scheduler_go:
  "i < int (length ad) \<Longrightarrow> accepted L n \<Longrightarrow> batchSizeAt L mb xb ad i n \<noteq> None \<Longrightarrow>
     scheduler L mb xb mi xi t a ad i n evs =
       scheduler L mb xb mi xi t a ad (i + the (batchSizeAt L mb xb ad i n)) (n + 1)
         (evs @ iterationEvents L mi xi t a ad i n (the (batchSizeAt L mb xb ad i n)))"
  by (subst scheduler_unfold) auto

lemma three_quarters: "doubleOfRatio False 3 4 = Finite 6755399441055744 (- 53)"
  by code_simp

lemma draws_zero:
  "randomInt (Finite 0 0) 0 0 = Whole 0"
  "randomInt (Finite 0 0) 2 2 = Whole 2"
  "randomInt (Finite 0 0) 10 10 = Whole 10"
  "randomInt (Finite 0 0) 500 500 = Whole 500"
  "randomInt (Finite 0 0) (- 1) 1 = Whole (- 1)"
  "randomInt (Finite 0 0) (- 1) 2 = Whole (- 1)"
  by code_simp+

lemma draws_three_quarters:
  "randomInt (Finite 6755399441055744 (- 53)) 10 10 = Whole 10"
  "randomInt (Finite 6755399441055744 (- 53)) (- 1) 1 = Whole 1"
  "randomInt (Finite 6755399441055744 (- 53)) (- 1) 2 = Whole 2"
  by code_simp+

lemma draws_near_one:
  "randomInt (Finite 9007199254740990 (- 53)) 2 2 = Whole 3"
  "randomInt (Finite 9007199254740990 (- 53)) 10 10 = Whole 11"
  by code_simp+

lemmas run_simps = scheduler_stop scheduler_go batchSizeAt_def iterationEvents_def clip_def
  Let_def slice_def ledgerWith_def three_quarters draws_zero draws_three_quarters draws_near_one

lemma randomValid_examples:
  "randomValid (ledgerWith drawsZero)" "randomValid (ledgerWith drawsA)"
  "randomValid (ledgerWith drawsB)" "randomValid (ledgerWith drawsNearOne)"
  by (simp_all add: randomValid_def ledgerWith_def drawsZero_def drawsA_def drawsB_def
        drawsNearOne_def three_quarters unitInterval_def)

lemma run_zero:
  "scheduler (ledgerWith drawsZero) 2 2 10 10 ''T'' ''5'' [''a'', ''b'', ''c''] 0 0 [] =
       Some \<lparr>final_i = 3,
             events = [Submit ''T'' [''a'', ''b''] ''5'', Wait (Whole 10),
                       Submit ''T'' [''c''] ''5'', Wait (Whole 10)],
             failure = None\<rparr>"
  by (simp add: run_simps drawsZero_def)

lemma run_A:
  "scheduler (ledgerWith drawsA) (- 1) 2 10 10 ''T'' ''5'' [''a'', ''b'', ''c''] 0 0 [] =
       Some \<lparr>final_i = 3,
             events = [Submit ''T'' [''a'', ''b''] ''5'', Wait (Whole 10),
                       Submit ''T'' [] ''5'', Wait (Whole 10),
                       Submit ''T'' [''b'', ''c''] ''5'', Wait (Whole 10)],
             failure = None\<rparr>"
  by (simp add: run_simps drawsA_def)

lemma run_B:
  "scheduler (ledgerWith drawsB) (- 1) 1 10 10 ''T'' ''5'' [''a'', ''b'', ''c''] 0 0 [] =
       Some \<lparr>final_i = 3,
             events = [Submit ''T'' [''a'', ''b''] ''5'', Wait (Whole 10),
                       Submit ''T'' [] ''5'', Wait (Whole 10),
                       Submit ''T'' [''a''] ''5'', Wait (Whole 10),
                       Submit ''T'' [''b''] ''5'', Wait (Whole 10),
                       Submit ''T'' [''c''] ''5'', Wait (Whole 10)],
             failure = None\<rparr>"
  by (simp add: run_simps drawsB_def)

lemma run_near_one:
  "scheduler (ledgerWith drawsNearOne) 2 2 10 10 ''T'' ''5'' [''a'', ''b'', ''c'', ''d''] 0 0 [] =
       Some \<lparr>final_i = 4,
             events = [Submit ''T'' [''a'', ''b'', ''c''] ''5'', Wait (Whole 11),
                       Submit ''T'' [''d''] ''5'', Wait (Whole 11)],
             failure = None\<rparr>"
  by (simp add: run_simps drawsNearOne_def)

subsection \<open>The scheduler loop: batches\<close>

text \<open>
  Claim C1, for the configurations whose minimum batch size is not negative. When such
  a configuration passes the check, then in every run of the loop that completes, the
  batches, concatenated in the order of their submission, are the recipient list: each
  batch is the segment of the list that starts where the batches before it end, and the
  batch sizes add up to the number of recipients. The sizes are those of the double
  arithmetic of line 103: a size drawn above the maximum is clipped like any other and
  leaves the partition as it is.
\<close>

theorem scheduler_partitions:
  assumes cfg: "validateConfig minBatch maxBatch minInt maxInt = None"
    and nonneg: "0 \<le> minBatch"
    and rnd: "randomValid L"
    and run: "scheduler L minBatch maxBatch minInt maxInt token amt addrs 0 0 [] = Some y"
    and ok: "failure y = None"
  shows "concat (batches (events y)) = addrs
       \<and> sum_list (map length (batches (events y))) = length addrs
       \<and> (\<forall>k < length (batches (events y)).
            batches (events y) ! k =
              take (length (batches (events y) ! k))
                (drop (length (concat (take k (batches (events y))))) addrs))"
proof -
  from cfg have le: "minBatch \<le> maxBatch" and cap: "maxBatch \<le> MAX_BATCH_SIZE"
    by (simp_all add: validateConfig_None)
  from scheduler_complete [OF nonneg le cap rnd run ok]
  have c: "concat (batches (events y)) = addrs" by (simp add: schedInv_def)
  have "sum_list (map length (batches (events y))) = length (concat (batches (events y)))"
    by (simp add: length_concat)
  with c concat_nth_slice [OF c] show ?thesis by simp
qed

theorem scheduler_partitions_witness:
  "validateConfig 2 2 10 10 = None \<and> (0::int) \<le> 2 \<and> randomValid (ledgerWith drawsZero)
   \<and> scheduler (ledgerWith drawsZero) 2 2 10 10 ''T'' ''5'' [''a'', ''b'', ''c''] 0 0 [] =
       Some \<lparr>final_i = 3,
             events = [Submit ''T'' [''a'', ''b''] ''5'', Wait (Whole 10),
                       Submit ''T'' [''c''] ''5'', Wait (Whole 10)],
             failure = None\<rparr>
   \<and> concat [[''a'', ''b''], [''c'']] = [''a'', ''b'', ''c'']"
proof -
  have cfg: "validateConfig 2 2 10 10 = None" by (simp add: validateConfig_def MAX_BATCH_SIZE_def)
  show ?thesis
    using cfg run_zero randomValid_examples(1)
      scheduler_partitions [OF cfg _ randomValid_examples(1) run_zero]
    by simp
qed

text \<open>
  With a minimum of \<open>-1\<close> the check still passes; a draw of \<open>-1\<close> moves the cursor back,
  and the recipient \<open>b\<close> is in two batches.
\<close>

theorem scheduler_partitions_counterexample:
  "validateConfig (- 1) 2 10 10 = None \<and> randomValid (ledgerWith drawsA)
   \<and> scheduler (ledgerWith drawsA) (- 1) 2 10 10 ''T'' ''5'' [''a'', ''b'', ''c''] 0 0 [] =
       Some \<lparr>final_i = 3,
             events = [Submit ''T'' [''a'', ''b''] ''5'', Wait (Whole 10),
                       Submit ''T'' [] ''5'', Wait (Whole 10),
                       Submit ''T'' [''b'', ''c''] ''5'', Wait (Whole 10)],
             failure = None\<rparr>
   \<and> concat (batches (events (the
         (scheduler (ledgerWith drawsA) (- 1) 2 10 10 ''T'' ''5'' [''a'', ''b'', ''c''] 0 0 []))))
       \<noteq> [''a'', ''b'', ''c'']"
proof (intro conjI)
  show "validateConfig (- 1) 2 10 10 = None"
    by (simp add: validateConfig_def MAX_BATCH_SIZE_def)
  show "randomValid (ledgerWith drawsA)"
    by (rule randomValid_examples(2))
  show "scheduler (ledgerWith drawsA) (- 1) 2 10 10 ''T'' ''5'' [''a'', ''b'', ''c''] 0 0 [] =
       Some \<lparr>final_i = 3,
             events = [Submit ''T'' [''a'', ''b''] ''5'', Wait (Whole 10),
                       Submit ''T'' [] ''5'', Wait (Whole 10),
                       Submit ''T'' [''b'', ''c''] ''5'', Wait (Whole 10)],
             failure = None\<rparr>"
    by (rule run_A)
  show "concat (batches (events (the
         (scheduler (ledgerWith drawsA) (- 1) 2 10 10 ''T'' ''5'' [''a'', ''b'', ''c''] 0 0 []))))
       \<noteq> [''a'', ''b'', ''c'']"
    by (simp add: run_A)
qed

lemma complete_batches:
  assumes cfg: "0 \<le> mb" "mb \<le> xb" "xb \<le> MAX_BATCH_SIZE" and rnd: "randomValid L"
    and run: "scheduler L mb xb mi xi t a ad 0 0 [] = Some y"
    and ok: "failure y = None"
  shows "concat (batches (events y)) = ad"
    and "\<forall>b \<in> set (butlast (batches (events y))). mb \<le> int (length b)"
    and "0 < mb \<Longrightarrow> [] \<notin> set (batches (events y))"
  using scheduler_complete [OF cfg rnd run ok] by (simp_all add: schedInv_def)

lemma complete_sizes:
  assumes cfg: "0 \<le> mb" "mb \<le> xb" "xb \<le> MAX_BATCH_SIZE" and rnd: "randomValid L"
    and dw: "drawsWithin L mb xb"
    and run: "scheduler L mb xb mi xi t a ad 0 0 [] = Some y"
  shows "\<forall>b \<in> set (batches (events y)). int (length b) \<le> xb"
  using scheduler_sizes [OF cfg rnd dw run] by (simp add: sizesWithin_def)

text \<open>
  Claim C2, for the configurations whose minimum batch size is not negative and the runs
  in which no size drawn at line 103 exceeds the maximum (\<open>drawsWithin\<close>: the sum of that
  line is rounded to a double, and reaches the maximum plus one when the result of
  \<^verbatim>\<open>Math.random()\<close> is close enough to 1; no draw exceeds the maximum when every result
  is at most \<open>1 - 2 ^ -43\<close>). In every such run that completes, every batch but the last
  has a size between the minimum and the maximum, and the last batch is what remains of
  the list after the batches before it. When the minimum and the maximum are the same
  \<open>K \<ge> 1\<close> and every submission is accepted, the run completes with \<open>\<lceil>n / K\<rceil>\<close> batches,
  and the last one has \<open>n mod K\<close> recipients when \<open>K\<close> does not divide \<open>n\<close>.
\<close>

theorem scheduler_batch_sizes:
  assumes cfg: "validateConfig minBatch maxBatch minInt maxInt = None"
    and rnd: "randomValid L"
    and dw: "drawsWithin L minBatch maxBatch"
  shows "(0 \<le> minBatch \<longrightarrow>
           (\<forall>y. scheduler L minBatch maxBatch minInt maxInt token amt addrs 0 0 [] = Some y
                  \<and> failure y = None \<longrightarrow>
              (\<forall>b \<in> set (butlast (batches (events y))).
                  minBatch \<le> int (length b) \<and> int (length b) \<le> maxBatch)
            \<and> (batches (events y) \<noteq> [] \<longrightarrow>
                  last (batches (events y))
                    = drop (length (concat (butlast (batches (events y))))) addrs
                \<and> length (last (batches (events y)))
                    = length addrs - length (concat (butlast (batches (events y)))))))
       \<and> (1 \<le> minBatch \<and> minBatch = maxBatch \<and> (\<forall>k. accepted L k) \<longrightarrow>
           (\<exists>y. scheduler L minBatch maxBatch minInt maxInt token amt addrs 0 0 [] = Some y
                  \<and> failure y = None
                  \<and> int (length (batches (events y)))
                       = \<lceil>real (length addrs) / real_of_int minBatch\<rceil>
                  \<and> (\<not> minBatch dvd int (length addrs) \<longrightarrow>
                        int (length (last (batches (events y))))
                          = int (length addrs) mod minBatch)))"
proof (intro conjI impI allI)
  fix y
  assume nonneg: "0 \<le> minBatch"
    and "scheduler L minBatch maxBatch minInt maxInt token amt addrs 0 0 [] = Some y
           \<and> failure y = None"
  then have run: "scheduler L minBatch maxBatch minInt maxInt token amt addrs 0 0 [] = Some y"
    and ok: "failure y = None" by simp_all
  from cfg have le: "minBatch \<le> maxBatch" and cap: "maxBatch \<le> MAX_BATCH_SIZE"
    by (simp_all add: validateConfig_None)
  note B = complete_batches [OF nonneg le cap rnd run ok]
  note S = complete_sizes [OF nonneg le cap rnd dw run]
  show "\<forall>b \<in> set (butlast (batches (events y))).
          minBatch \<le> int (length b) \<and> int (length b) \<le> maxBatch"
    using B(2) S by (auto dest: in_set_butlastD)
  {
    assume ne: "batches (events y) \<noteq> []"
    show "last (batches (events y))
            = drop (length (concat (butlast (batches (events y))))) addrs"
      by (rule last_batch_is_rest(1) [OF B(1) ne])
    show "length (last (batches (events y)))
            = length addrs - length (concat (butlast (batches (events y))))"
      by (rule last_batch_is_rest(2) [OF B(1) ne])
  }
next
  assume h: "1 \<le> minBatch \<and> minBatch = maxBatch \<and> (\<forall>k. accepted L k)"
  then have K1: "1 \<le> minBatch" and eq: "minBatch = maxBatch" and acc: "\<forall>k. accepted L k"
    by simp_all
  have K0: "0 \<le> minBatch" and le: "minBatch \<le> maxBatch" using K1 eq by simp_all
  from cfg have cap: "maxBatch \<le> MAX_BATCH_SIZE" by (simp add: validateConfig_None)
  from scheduler_terminates [OF K1 le cap rnd acc]
  obtain y where run: "scheduler L minBatch maxBatch minInt maxInt token amt addrs 0 0 [] = Some y"
    and ok: "failure y = None" by blast
  note B = complete_batches [OF K0 le cap rnd run ok]
  note S = complete_sizes [OF K0 le cap rnd dw run]
  let ?bs = "batches (events y)"
  let ?K = "nat minBatch"
  have Kn: "1 \<le> ?K" using K1 by simp
  have all: "\<forall>b \<in> set (butlast ?bs). length b = ?K"
  proof
    fix b assume b: "b \<in> set (butlast ?bs)"
    then have "b \<in> set ?bs" by (rule in_set_butlastD)
    with S have "int (length b) \<le> maxBatch" by blast
    moreover from B(2) b have "minBatch \<le> int (length b)" by blast
    ultimately show "length b = ?K" using eq by linarith
  qed
  have lst: "?bs \<noteq> [] \<longrightarrow> 1 \<le> length (last ?bs) \<and> length (last ?bs) \<le> ?K"
  proof
    assume ne: "?bs \<noteq> []"
    then have m: "last ?bs \<in> set ?bs" by simp
    with B(3) K1 have "last ?bs \<noteq> []" by auto
    then have "1 \<le> length (last ?bs)" by (cases "last ?bs") simp_all
    moreover from S m have "int (length (last ?bs)) \<le> maxBatch" by blast
    then have "length (last ?bs) \<le> ?K" using eq by linarith
    ultimately show "1 \<le> length (last ?bs) \<and> length (last ?bs) \<le> ?K" ..
  qed
  have rK: "real ?K = real_of_int minBatch" using K1 by simp
  have cnt: "int (length ?bs) = \<lceil>real (length addrs) / real_of_int minBatch\<rceil>"
    using fixed_size_count(1) [OF Kn all lst] B(1) rK by simp
  have md: "\<not> minBatch dvd int (length addrs) \<longrightarrow>
              int (length (last ?bs)) = int (length addrs) mod minBatch"
  proof
    assume "\<not> minBatch dvd int (length addrs)"
    then have "\<not> ?K dvd length addrs"
      using K1 by (metis K0 int_dvd_int_iff int_nat_eq)
    from fixed_size_count(2) [OF Kn all lst] this B(1)
    have "length (last ?bs) = length addrs mod ?K" by simp
    then have "int (length (last ?bs)) = int (length addrs mod ?K)" by simp
    also have "\<dots> = int (length addrs) mod minBatch"
      using K0 by (simp add: zmod_int)
    finally show "int (length (last ?bs)) = int (length addrs) mod minBatch" .
  qed
  from run ok cnt md
  show "\<exists>y. scheduler L minBatch maxBatch minInt maxInt token amt addrs 0 0 [] = Some y
                  \<and> failure y = None
                  \<and> int (length (batches (events y)))
                       = \<lceil>real (length addrs) / real_of_int minBatch\<rceil>
                  \<and> (\<not> minBatch dvd int (length addrs) \<longrightarrow>
                        int (length (last (batches (events y))))
                          = int (length addrs) mod minBatch)"
    by blast
qed

lemma drawsWithin_zero: "drawsWithin (ledgerWith drawsZero) 2 2"
  by (rule drawsWithin_belowOne)
     (simp_all add: ledgerWith_def drawsZero_def belowOne_def MAX_BATCH_SIZE_def)

theorem scheduler_batch_sizes_witness:
  "validateConfig 2 2 10 10 = None \<and> randomValid (ledgerWith drawsZero)
   \<and> drawsWithin (ledgerWith drawsZero) 2 2
   \<and> (0::int) \<le> 2 \<and> (1::int) \<le> 2 \<and> accepted (ledgerWith drawsZero) 0
   \<and> \<not> (2::int) dvd int (length [''a'', ''b'', ''c''])
   \<and> scheduler (ledgerWith drawsZero) 2 2 10 10 ''T'' ''5'' [''a'', ''b'', ''c''] 0 0 [] =
       Some \<lparr>final_i = 3,
             events = [Submit ''T'' [''a'', ''b''] ''5'', Wait (Whole 10),
                       Submit ''T'' [''c''] ''5'', Wait (Whole 10)],
             failure = None\<rparr>
   \<and> last [[''a'', ''b''], [''c'']] = drop (length (concat (butlast [[''a'', ''b''], [''c'']]))) [''a'', ''b'', ''c'']
   \<and> int (length [[''a'', ''b''], [''c'']]) = \<lceil>real (length [''a'', ''b'', ''c'']) / real_of_int 2\<rceil>
   \<and> int (length (last [[''a'', ''b''], [''c'']])) = int (length [''a'', ''b'', ''c'']) mod 2"
proof -
  have cfg: "validateConfig 2 2 10 10 = None" by (simp add: validateConfig_def MAX_BATCH_SIZE_def)
  have acc: "\<forall>k. accepted (ledgerWith drawsZero) k" by (simp add: ledgerWith_def)
  have nd: "\<not> (2::int) dvd int (length [''a'', ''b'', ''c''])" by simp
  note T = scheduler_batch_sizes [OF cfg randomValid_examples(1) drawsWithin_zero,
      of "''T''" "''5''" "[''a'', ''b'', ''c'']"]
  from T have A: "last [[''a'', ''b''], [''c'']] = drop (length (concat (butlast [[''a'', ''b''], [''c'']]))) [''a'', ''b'', ''c'']"
    using run_zero by simp
  from T acc run_zero nd
  have B: "int (length [[''a'', ''b''], [''c'']]) = \<lceil>real (length [''a'', ''b'', ''c'']) / real_of_int 2\<rceil>
     \<and> int (length (last [[''a'', ''b''], [''c'']])) = int (length [''a'', ''b'', ''c'']) mod 2"
    by auto
  show ?thesis
    using cfg randomValid_examples(1) drawsWithin_zero acc nd run_zero A B by simp
qed

lemma run_near_one_three:
  "scheduler (ledgerWith drawsNearOne) 2 2 10 10 ''T'' ''5'' [''a'', ''b'', ''c''] 0 0 [] =
       Some \<lparr>final_i = 3,
             events = [Submit ''T'' [''a'', ''b'', ''c''] ''5'', Wait (Whole 11)],
             failure = None\<rparr>"
  by (simp add: run_simps drawsNearOne_def)

text \<open>
  With the range \<open>[-1, 1]\<close> the check passes; the first draw \<open>-1\<close> makes the first batch
  \<^verbatim>\<open>slice(0, -1)\<close>, two recipients of three, which is more than the maximum. With the
  sizes 2 and 2 and \<^verbatim>\<open>Math.random()\<close> at \<open>1 - 2 ^ -52\<close>, the sum \<open>r * 1 + 2\<close> is rounded to 3:
  of four recipients the first batch takes three, and three recipients go out in one
  batch, not in \<open>\<lceil>3 / 2\<rceil> = 2\<close>.
\<close>

theorem scheduler_batch_sizes_counterexample:
  "validateConfig (- 1) 1 10 10 = None \<and> randomValid (ledgerWith drawsB)
   \<and> scheduler (ledgerWith drawsB) (- 1) 1 10 10 ''T'' ''5'' [''a'', ''b'', ''c''] 0 0 [] =
       Some \<lparr>final_i = 3,
             events = [Submit ''T'' [''a'', ''b''] ''5'', Wait (Whole 10),
                       Submit ''T'' [] ''5'', Wait (Whole 10),
                       Submit ''T'' [''a''] ''5'', Wait (Whole 10),
                       Submit ''T'' [''b''] ''5'', Wait (Whole 10),
                       Submit ''T'' [''c''] ''5'', Wait (Whole 10)],
             failure = None\<rparr>
   \<and> \<not> int (length (hd (batches (events (the
         (scheduler (ledgerWith drawsB) (- 1) 1 10 10 ''T'' ''5'' [''a'', ''b'', ''c''] 0 0 [])))))) \<le> 1
   \<and> validateConfig 2 2 10 10 = None \<and> randomValid (ledgerWith drawsNearOne)
   \<and> randomInt (drawsNearOne 0) 2 2 = Whole 3
   \<and> scheduler (ledgerWith drawsNearOne) 2 2 10 10 ''T'' ''5'' [''a'', ''b'', ''c'', ''d''] 0 0 [] =
       Some \<lparr>final_i = 4,
             events = [Submit ''T'' [''a'', ''b'', ''c''] ''5'', Wait (Whole 11),
                       Submit ''T'' [''d''] ''5'', Wait (Whole 11)],
             failure = None\<rparr>
   \<and> \<not> int (length (hd (batches (events (the
         (scheduler (ledgerWith drawsNearOne) 2 2 10 10 ''T'' ''5'' [''a'', ''b'', ''c'', ''d''] 0 0 [])))))) \<le> 2
   \<and> scheduler (ledgerWith drawsNearOne) 2 2 10 10 ''T'' ''5'' [''a'', ''b'', ''c''] 0 0 [] =
       Some \<lparr>final_i = 3,
             events = [Submit ''T'' [''a'', ''b'', ''c''] ''5'', Wait (Whole 11)],
             failure = None\<rparr>
   \<and> int (length (batches (events (the
         (scheduler (ledgerWith drawsNearOne) 2 2 10 10 ''T'' ''5'' [''a'', ''b'', ''c''] 0 0 [])))))
       \<noteq> \<lceil>real (length [''a'', ''b'', ''c'']) / real_of_int 2\<rceil>"
proof (intro conjI)
  show "validateConfig (- 1) 1 10 10 = None"
    by (simp add: validateConfig_def MAX_BATCH_SIZE_def)
  show "randomValid (ledgerWith drawsB)"
    by (rule randomValid_examples(3))
  show "scheduler (ledgerWith drawsB) (- 1) 1 10 10 ''T'' ''5'' [''a'', ''b'', ''c''] 0 0 [] =
       Some \<lparr>final_i = 3,
             events = [Submit ''T'' [''a'', ''b''] ''5'', Wait (Whole 10),
                       Submit ''T'' [] ''5'', Wait (Whole 10),
                       Submit ''T'' [''a''] ''5'', Wait (Whole 10),
                       Submit ''T'' [''b''] ''5'', Wait (Whole 10),
                       Submit ''T'' [''c''] ''5'', Wait (Whole 10)],
             failure = None\<rparr>"
    by (rule run_B)
  show "\<not> int (length (hd (batches (events (the
         (scheduler (ledgerWith drawsB) (- 1) 1 10 10 ''T'' ''5'' [''a'', ''b'', ''c''] 0 0 [])))))) \<le> 1"
    by (simp add: run_B)
  show "validateConfig 2 2 10 10 = None"
    by (simp add: validateConfig_def MAX_BATCH_SIZE_def)
  show "randomValid (ledgerWith drawsNearOne)"
    by (rule randomValid_examples(4))
  show "randomInt (drawsNearOne 0) 2 2 = Whole 3"
    by (simp add: drawsNearOne_def draws_near_one)
  show "scheduler (ledgerWith drawsNearOne) 2 2 10 10 ''T'' ''5'' [''a'', ''b'', ''c'', ''d''] 0 0 [] =
       Some \<lparr>final_i = 4,
             events = [Submit ''T'' [''a'', ''b'', ''c''] ''5'', Wait (Whole 11),
                       Submit ''T'' [''d''] ''5'', Wait (Whole 11)],
             failure = None\<rparr>"
    by (rule run_near_one)
  show "\<not> int (length (hd (batches (events (the
         (scheduler (ledgerWith drawsNearOne) 2 2 10 10 ''T'' ''5'' [''a'', ''b'', ''c'', ''d''] 0 0 [])))))) \<le> 2"
    by (simp add: run_near_one)
  show "scheduler (ledgerWith drawsNearOne) 2 2 10 10 ''T'' ''5'' [''a'', ''b'', ''c''] 0 0 [] =
       Some \<lparr>final_i = 3,
             events = [Submit ''T'' [''a'', ''b'', ''c''] ''5'', Wait (Whole 11)],
             failure = None\<rparr>"
    by (rule run_near_one_three)
  show "int (length (batches (events (the
         (scheduler (ledgerWith drawsNearOne) 2 2 10 10 ''T'' ''5'' [''a'', ''b'', ''c''] 0 0 [])))))
       \<noteq> \<lceil>real (length [''a'', ''b'', ''c'']) / real_of_int 2\<rceil>"
  proof -
    have "\<lceil>(3::real) / 2\<rceil> = 2" by (simp add: ceiling_eq_iff)
    then show ?thesis by (simp add: run_near_one_three)
  qed
qed

subsection \<open>Numbers and strings of the examples\<close>

lemmas literal_simps = stringToNumber_def trim_def whiteSpace_def radixLiteral_def
  radixDigits_def decimalLiteral_def exponentPart_def decimalDigit_def decimalValue_def
  digitValue_def Let_def

lemma literal_tenth: "stringToNumber ''0.1'' = Finite 7205759403792794 (- 56)"
proof -
  have "stringToNumber ''0.1'' = doubleOfRatio False 1 10"
    by (simp add: literal_simps)
  also have "\<dots> = Finite 7205759403792794 (- 56)" by code_simp
  finally show ?thesis .
qed

lemma literal_two: "stringToNumber ''2'' = Finite 4503599627370496 (- 51)"
proof -
  have "stringToNumber ''2'' = doubleOfRatio False 2 1"
    by (simp add: literal_simps)
  also have "\<dots> = Finite 4503599627370496 (- 51)" by code_simp
  finally show ?thesis .
qed

lemma three_tenths: "numberTimes 3 (Finite 7205759403792794 (- 56)) = Finite 5404319552844596 (- 54)"
  by code_simp

lemma toString_three_tenths:
  "numberToString (Finite 5404319552844596 (- 54)) = ''0.30000000000000004''"
  by code_simp

lemma three_twos: "numberTimes 3 (Finite 4503599627370496 (- 51)) = Finite 6755399441055744 (- 50)"
  by code_simp

lemma toString_six: "numberToString (Finite 6755399441055744 (- 50)) = ''6''"
  by code_simp

lemma parse_recipientsFile: "parseAddressesFile recipientsFile = recipientsFile"
  by (simp add: parseAddressesFile_def recipientsFile_def on_line_def addressRegex_test_def
        hexClass_def ADDRESS_ZERO_def eval_nat_numeral)

lemma length_recipientsFile: "length recipientsFile = 3"
  by (simp add: recipientsFile_def)

lemmas number_simps = literal_tenth literal_two three_tenths toString_three_tenths
  three_twos toString_six

lemma format_examples:
  "formatWithDecimals ''0.1'' 18 = Inr ''0100000000000000000''"
  "formatWithDecimals ''0.30000000000000004'' 18 = Inr ''0300000000000000040''"
  "formatWithDecimals ''0.30000000000000004'' 6 = Inl RangeError"
  "formatWithDecimals ''0.1'' 6 = Inr ''0100000''"
  "formatWithDecimals ''2'' 6 = Inr ''2000000''"
  "formatWithDecimals ''6'' 6 = Inr ''6000000''"
  by (simp_all add: formatWithDecimals_def repeat_zero_def Let_def eval_nat_numeral)

lemma bigNumber_examples:
  "bigNumberFrom ''0300000000000000040'' = Inr 300000000000000040"
  "bigNumberFrom ''0100000000000000000'' = Inr 100000000000000000"
  "bigNumberFrom ''6000000'' = Inr 6000000"
  by (simp_all add: bigNumberFrom_def Let_def decimalDigit_def decimalValue_def digitValue_def)

lemma task_reaches_scheduler:
  "sendBatchTransfer (tokenLedger 6 6000000)
     ((transferArgs ''2'')\<lparr>minBatchSize := mb, maxBatchSize := xb\<rparr>)
   = (case validateConfig (orDefault mb MAX_BATCH_SIZE) (orDefault xb MAX_BATCH_SIZE) 10 10 of
        Some e \<Rightarrow> abort e
      | None \<Rightarrow>
          scheduler (tokenLedger 6 6000000) (orDefault mb MAX_BATCH_SIZE)
            (orDefault xb MAX_BATCH_SIZE) 10 10 ''0xT'' ''2000000'' recipientsFile 0 0 [])"
  by (simp add: sendBatchTransfer_def tokenLedger_def transferArgs_def orDefault_def
        DEFAULT_INTERVAL_def parse_recipientsFile length_recipientsFile number_simps
        format_examples bigNumber_examples lt_def abort_def split: option.splits)

lemma default_task_reaches_scheduler:
  "sendBatchTransfer (tokenLedger 6 6000000) (transferArgs ''2'')
   = scheduler (tokenLedger 6 6000000) 500 500 10 10 ''0xT'' ''2000000'' recipientsFile 0 0 []"
  using task_reaches_scheduler [of None None]
  by (simp add: transferArgs_def orDefault_def validateConfig_def MAX_BATCH_SIZE_def)

lemma default_scheduler_run:
  "scheduler (tokenLedger 6 6000000) 500 500 10 10 ''0xT'' ''2000000'' recipientsFile 0 0 []
   = Some \<lparr>final_i = 3, events = [Submit ''0xT'' recipientsFile ''2000000'', Wait (Whole 10)],
            failure = None\<rparr>"
  by (simp add: scheduler_stop scheduler_go batchSizeAt_def iterationEvents_def clip_def Let_def
        draws_zero slice_def tokenLedger_def drawsZero_def recipientsFile_def)

subsection \<open>The balance check of the action\<close>

text \<open>
  Claim C4. Once the configuration has passed its check, the amount (the string that was
  given) has been scaled and the expected cost (the product of the number of recipients
  and the amount read as a number, printed and scaled) has been converted (\<open>c\<close> is the
  number the comparison reads from the cost string), the action fails with the
  insufficient-funds error exactly when the balance of the batcher (native when
  \<^verbatim>\<open>tokenNative\<close> is set, of the token otherwise) is less than \<open>c\<close>, and then no batch has
  been submitted; a balance of \<open>c\<close> passes the check and a balance of \<open>c - 1\<close> fails it.
\<close>

theorem balance_check:
  assumes cfg: "validateConfig (orDefault (minBatchSize taskArgs) MAX_BATCH_SIZE)
                  (orDefault (maxBatchSize taskArgs) MAX_BATCH_SIZE)
                  (orDefault (minInterval taskArgs) DEFAULT_INTERVAL)
                  (orDefault (maxInterval taskArgs) DEFAULT_INTERVAL) = None"
    and amt: "formatWithDecimals (amount taskArgs)
                (tokenDecimals L (tokenAddress taskArgs)) = Inr amountFormatted"
    and cost: "formatWithDecimals
                (numberToString
                   (numberTimes
                      (int (length (parseAddressesFile (fileLines L (addressesPath taskArgs)))))
                      (stringToNumber (amount taskArgs))))
                (tokenDecimals L (tokenAddress taskArgs)) = Inr expectedCost"
    and bn: "bigNumberFrom expectedCost = Inr c"
  shows "((\<exists>y. sendBatchTransfer L taskArgs = Some y \<and> failure y = Some InsufficientFunds)
            \<longleftrightarrow> tokenBalance L taskArgs < c)
       \<and> (tokenBalance L taskArgs < c \<longrightarrow>
            sendBatchTransfer L taskArgs
              = Some \<lparr>final_i = 0, events = [], failure = Some InsufficientFunds\<rparr>)
       \<and> (tokenBalance L taskArgs = c \<longrightarrow>
            (\<forall>y. sendBatchTransfer L taskArgs = Some y \<longrightarrow> failure y \<noteq> Some InsufficientFunds))
       \<and> (tokenBalance L taskArgs = c - 1 \<longrightarrow>
            sendBatchTransfer L taskArgs
              = Some \<lparr>final_i = 0, events = [], failure = Some InsufficientFunds\<rparr>)"
proof -
  have low: "sendBatchTransfer L taskArgs
              = Some \<lparr>final_i = 0, events = [], failure = Some InsufficientFunds\<rparr>"
    if "tokenBalance L taskArgs < c"
    using that cfg amt cost bn
    by (simp add: sendBatchTransfer_def Let_def lt_def abort_def tokenBalance_def)
  have high: "failure y \<noteq> Some InsufficientFunds"
    if nlt: "\<not> tokenBalance L taskArgs < c" and run: "sendBatchTransfer L taskArgs = Some y" for y
  proof (cases "batcherOwner L (batcherAddress taskArgs) \<noteq> senderAddress L")
    case True
    with nlt run cfg amt cost bn show ?thesis
      by (auto simp: sendBatchTransfer_def Let_def lt_def abort_def tokenBalance_def)
  next
    case False
    with nlt run cfg amt cost bn
    obtain mb xb mi xi t a ad where "scheduler L mb xb mi xi t a ad 0 0 [] = Some y"
      by (auto simp: sendBatchTransfer_def Let_def lt_def abort_def tokenBalance_def split: if_splits)
    from scheduler_failure [OF this] show ?thesis by auto
  qed
  show ?thesis
    using low high by auto
qed

theorem balance_check_witness:
  "validateConfig 500 500 10 10 = None
   \<and> formatWithDecimals ''2'' 6 = Inr ''2000000''
   \<and> formatWithDecimals (numberToString (numberTimes 3 (stringToNumber ''2''))) 6 = Inr ''6000000''
   \<and> bigNumberFrom ''6000000'' = Inr 6000000
   \<and> tokenBalance (tokenLedger 6 5999999) (transferArgs ''2'') = 6000000 - 1
   \<and> sendBatchTransfer (tokenLedger 6 5999999) (transferArgs ''2'')
        = Some \<lparr>final_i = 0, events = [], failure = Some InsufficientFunds\<rparr>
   \<and> tokenBalance (tokenLedger 6 6000000) (transferArgs ''2'') = 6000000
   \<and> sendBatchTransfer (tokenLedger 6 6000000) (transferArgs ''2'')
        = Some \<lparr>final_i = 3, events = [Submit ''0xT'' recipientsFile ''2000000'', Wait (Whole 10)],
                failure = None\<rparr>
   \<and> failure (the (sendBatchTransfer (tokenLedger 6 6000000) (transferArgs ''2'')))
        \<noteq> Some InsufficientFunds"
proof -
  let ?A = "transferArgs ''2''"
  have v: "validateConfig 500 500 10 10 = None"
    by (simp add: validateConfig_def MAX_BATCH_SIZE_def)
  then have cfg: "validateConfig (orDefault (minBatchSize ?A) MAX_BATCH_SIZE)
                  (orDefault (maxBatchSize ?A) MAX_BATCH_SIZE)
                  (orDefault (minInterval ?A) DEFAULT_INTERVAL)
                  (orDefault (maxInterval ?A) DEFAULT_INTERVAL) = None"
    by (simp add: transferArgs_def orDefault_def MAX_BATCH_SIZE_def DEFAULT_INTERVAL_def)
  have a: "formatWithDecimals ''2'' 6 = Inr ''2000000''"
    by (rule format_examples)
  have e: "formatWithDecimals (numberToString (numberTimes 3 (stringToNumber ''2''))) 6 = Inr ''6000000''"
    by (simp only: number_simps format_examples)
  have amt: "formatWithDecimals (amount ?A)
                (tokenDecimals (tokenLedger 6 b) (tokenAddress ?A)) = Inr ''2000000''" for b
    using a by (simp add: transferArgs_def tokenLedger_def)
  have cost: "formatWithDecimals
                (numberToString
                   (numberTimes
                      (int (length (parseAddressesFile (fileLines (tokenLedger 6 b) (addressesPath ?A)))))
                      (stringToNumber (amount ?A))))
                (tokenDecimals (tokenLedger 6 b) (tokenAddress ?A)) = Inr ''6000000''" for b
    using e by (simp add: transferArgs_def tokenLedger_def parse_recipientsFile length_recipientsFile)
  have bn: "bigNumberFrom ''6000000'' = Inr 6000000" by (rule bigNumber_examples)
  have b1: "tokenBalance (tokenLedger 6 5999999) ?A = 6000000 - 1"
    by (simp add: tokenBalance_def tokenLedger_def transferArgs_def)
  have b2: "tokenBalance (tokenLedger 6 6000000) ?A = 6000000"
    by (simp add: tokenBalance_def tokenLedger_def transferArgs_def)
  from balance_check [OF cfg amt cost bn, of 5999999] b1
  have low: "sendBatchTransfer (tokenLedger 6 5999999) ?A
        = Some \<lparr>final_i = 0, events = [], failure = Some InsufficientFunds\<rparr>"
    by simp
  have run: "sendBatchTransfer (tokenLedger 6 6000000) ?A
        = Some \<lparr>final_i = 3, events = [Submit ''0xT'' recipientsFile ''2000000'', Wait (Whole 10)],
                failure = None\<rparr>"
    by (simp only: default_task_reaches_scheduler default_scheduler_run)
  from balance_check [OF cfg amt cost bn, of 6000000] b2 run
  have high: "failure (the (sendBatchTransfer (tokenLedger 6 6000000) ?A)) \<noteq> Some InsufficientFunds"
    by simp
  from v a e bn b1 low b2 run high show ?thesis by simp
qed

subsection \<open>The expected cost\<close>

text \<open>
  Claim C3 at three recipients and the amount \<^verbatim>\<open>0.1\<close>. The amount per recipient is scaled
  from the string \<^verbatim>\<open>"0.1"\<close> as it was given, but the expected cost is scaled from the
  string of the floating-point product \<^verbatim>\<open>3 * "0.1"\<close>, which is \<^verbatim>\<open>"0.30000000000000004"\<close>. At
  18 decimals the cost is 300000000000000040 base units and not three times
  100000000000000000, so a batcher that holds exactly the three amounts is refused; at 6
  decimals the fractional part is too long and the action stops with a \<^verbatim>\<open>RangeError\<close>.
\<close>

theorem expectedCost_rounded:
  "formatWithDecimals ''0.1'' 18 = Inr ''0100000000000000000''
   \<and> bigNumberFrom ''0100000000000000000'' = Inr 100000000000000000
   \<and> formatWithDecimals (numberToString (numberTimes 3 (stringToNumber ''0.1''))) 18
        = Inr ''0300000000000000040''
   \<and> bigNumberFrom ''0300000000000000040'' = Inr 300000000000000040
   \<and> sendBatchTransfer (tokenLedger 18 300000000000000000) (transferArgs ''0.1'')
        = Some \<lparr>final_i = 0, events = [], failure = Some InsufficientFunds\<rparr>
   \<and> sendBatchTransfer (tokenLedger 6 300000) (transferArgs ''0.1'')
        = Some \<lparr>final_i = 0, events = [], failure = Some RangeError\<rparr>"
proof (intro conjI)
  show "formatWithDecimals ''0.1'' 18 = Inr ''0100000000000000000''"
    by (rule format_examples)
  show "bigNumberFrom ''0100000000000000000'' = Inr 100000000000000000"
    by (rule bigNumber_examples)
  show "formatWithDecimals (numberToString (numberTimes 3 (stringToNumber ''0.1''))) 18
        = Inr ''0300000000000000040''"
    by (simp only: number_simps format_examples)
  show "bigNumberFrom ''0300000000000000040'' = Inr 300000000000000040"
    by (rule bigNumber_examples)
  show "sendBatchTransfer (tokenLedger 18 300000000000000000) (transferArgs ''0.1'')
        = Some \<lparr>final_i = 0, events = [], failure = Some InsufficientFunds\<rparr>"
    by (simp add: sendBatchTransfer_def tokenLedger_def transferArgs_def orDefault_def
          validateConfig_def MAX_BATCH_SIZE_def DEFAULT_INTERVAL_def parse_recipientsFile
          length_recipientsFile number_simps format_examples bigNumber_examples lt_def abort_def)
  show "sendBatchTransfer (tokenLedger 6 300000) (transferArgs ''0.1'')
        = Some \<lparr>final_i = 0, events = [], failure = Some RangeError\<rparr>"
    by (simp add: sendBatchTransfer_def tokenLedger_def transferArgs_def orDefault_def
          validateConfig_def MAX_BATCH_SIZE_def DEFAULT_INTERVAL_def parse_recipientsFile
          length_recipientsFile number_simps format_examples bigNumber_examples lt_def abort_def)
qed

subsection \<open>Termination and pacing\<close>

lemma zero_size_never_completes:
  assumes run: "scheduler L 0 0 mi xi t a ad i n evs = Some y"
    and i: "0 \<le> i" "i < int (length ad)"
    and rnd: "\<forall>k. randomInt (random L (2 * k)) 0 0 = Whole 0"
  shows "failure y = Some SubmissionError \<and> final_i y = i"
proof -
  have z: "batchSizeAt L 0 0 ad i n = Some 0" for n
    using rnd i by (simp add: batchSizeAt_def clip_def)
  have "\<exists>i' n' evs'. i' = i \<and>
          ((\<not> i' < int (length ad) \<and> y = \<lparr>final_i = i', events = evs', failure = None\<rparr>) \<or>
           (i' < int (length ad) \<and> batchSizeAt L 0 0 ad i' n' \<noteq> None \<and> \<not> accepted L n' \<and>
              y = \<lparr>final_i = i', events = evs', failure = Some SubmissionError\<rparr>) \<or>
           (i' < int (length ad) \<and> batchSizeAt L 0 0 ad i' n' = None \<and>
              y = \<lparr>final_i = i', events = evs', failure = Some CursorNotInteger\<rparr>))"
    using run
  proof (rule scheduler_invariant [where I = "\<lambda>j n evs. j = i"])
    show "i = i" by simp
  next
    fix j n evs b
    assume "j = i" "batchSizeAt L 0 0 ad j n = Some b"
    with z [of n] show "j + b = i" by simp
  qed
  with z i show ?thesis by auto
qed

lemma zero_size_diverges:
  assumes i: "0 \<le> i" "i < int (length ad)"
    and rnd: "\<forall>k. randomInt (random L (2 * k)) 0 0 = Whole 0" and acc: "\<forall>k. accepted L k"
  shows "scheduler L 0 0 mi xi t a ad i n evs = None"
proof (cases "scheduler L 0 0 mi xi t a ad i n evs")
  case None
  then show ?thesis .
next
  case (Some y)
  from zero_size_never_completes [OF Some i rnd]
  have f: "failure y = Some SubmissionError" by simp
  from scheduler_invariant [OF Some, where I = "\<lambda>j n evs. True"] acc
  have "failure y \<noteq> Some SubmissionError" by auto
  with f show ?thesis by simp
qed

text \<open>
  Claim C9 at the batch sizes \<open>0\<close> and \<open>0\<close>, which pass the configuration check: the batch
  drawn is empty, the cursor stays where it is, and on a list that is not empty the loop
  never ends, whether it is started alone or by the action.
\<close>

theorem scheduler_zero_batch_size_diverges:
  "validateConfig 0 0 10 10 = None
   \<and> scheduler (ledgerWith drawsZero) 0 0 10 10 ''T'' ''5'' [''a''] 0 0 [] = None
   \<and> sendBatchTransfer (tokenLedger 6 6000000)
        ((transferArgs ''2'')\<lparr>minBatchSize := Some 0, maxBatchSize := Some 0\<rparr>)
      = None"
proof (intro conjI)
  show v: "validateConfig 0 0 10 10 = None"
    by (simp add: validateConfig_def MAX_BATCH_SIZE_def)
  show "scheduler (ledgerWith drawsZero) 0 0 10 10 ''T'' ''5'' [''a''] 0 0 [] = None"
    by (rule zero_size_diverges) (simp_all add: ledgerWith_def drawsZero_def draws_zero)
  have "scheduler (tokenLedger 6 6000000) 0 0 10 10 ''0xT'' ''2000000'' recipientsFile 0 0 [] = None"
    by (rule zero_size_diverges)
      (simp_all add: tokenLedger_def drawsZero_def draws_zero recipientsFile_def)
  with v show "sendBatchTransfer (tokenLedger 6 6000000)
        ((transferArgs ''2'')\<lparr>minBatchSize := Some 0, maxBatchSize := Some 0\<rparr>)
      = None"
    by (simp add: task_reaches_scheduler orDefault_def)
qed

lemma alternates_append:
  "alternates evs \<Longrightarrow> alternates (evs @ [Submit t b a, Wait m])"
  by (induction evs rule: alternates.induct) simp_all

text \<open>
  Claim C10, as the loop has it: the wait is a part of every iteration. In every complete
  run each batch submission is followed at once by one pacing wait and each wait follows
  a submission, so that a wait is followed by a submission only when a batch remains, and
  the run over a list that is not empty ends with the wait that follows the final batch.
\<close>

theorem scheduler_waits_after_every_batch:
  assumes run: "scheduler L minBatch maxBatch minInt maxInt token amt addrs 0 0 [] = Some y"
    and ok: "failure y = None"
  shows "alternates (events y)
       \<and> (addrs \<noteq> [] \<longrightarrow> events y \<noteq> [] \<and> (\<exists>m. last (events y) = Wait m))"
proof -
  let ?I = "\<lambda>(i::int) (n::nat) evs.
      alternates evs \<and> ((i = 0 \<and> evs = []) \<or> (evs \<noteq> [] \<and> (\<exists>m. last evs = Wait m)))"
  have "\<exists>i' n' evs'. ?I i' n' evs' \<and>
          ((\<not> i' < int (length addrs) \<and> y = \<lparr>final_i = i', events = evs', failure = None\<rparr>) \<or>
           (i' < int (length addrs) \<and> batchSizeAt L minBatch maxBatch addrs i' n' \<noteq> None
              \<and> \<not> accepted L n' \<and>
              y = \<lparr>final_i = i', events = evs', failure = Some SubmissionError\<rparr>) \<or>
           (i' < int (length addrs) \<and> batchSizeAt L minBatch maxBatch addrs i' n' = None \<and>
              y = \<lparr>final_i = i', events = evs', failure = Some CursorNotInteger\<rparr>))"
    using run
  proof (rule scheduler_invariant [where I = ?I])
    show "?I 0 0 []" by simp
  next
    fix i n evs b
    assume "?I i n evs"
    then show "?I (i + b) (n + 1) (evs @ iterationEvents L minInt maxInt token amt addrs i n b)"
      by (simp add: iterationEvents_def alternates_append)
  qed
  then obtain i' evs' where alt: "alternates evs'"
    and I: "(i' = 0 \<and> evs' = []) \<or> (evs' \<noteq> [] \<and> (\<exists>m. last evs' = Wait m))"
    and fin: "\<not> i' < int (length addrs)" and y: "events y = evs'"
    using ok by fastforce
  have "addrs \<noteq> [] \<longrightarrow> i' \<noteq> 0" using fin by auto
  with alt I y show ?thesis by auto
qed

theorem scheduler_waits_after_every_batch_witness:
  "scheduler (ledgerWith drawsZero) 2 2 10 10 ''T'' ''5'' [''a'', ''b'', ''c''] 0 0 [] =
       Some \<lparr>final_i = 3,
             events = [Submit ''T'' [''a'', ''b''] ''5'', Wait (Whole 10),
                       Submit ''T'' [''c''] ''5'', Wait (Whole 10)],
             failure = None\<rparr>
   \<and> [''a'', ''b'', ''c''] \<noteq> []
   \<and> alternates [Submit ''T'' [''a'', ''b''] ''5'', Wait (Whole 10),
                  Submit ''T'' [''c''] ''5'', Wait (Whole 10)]
   \<and> last [Submit ''T'' [''a'', ''b''] ''5'', Wait (Whole 10),
            Submit ''T'' [''c''] ''5'', Wait (Whole 10)] = Wait (Whole 10)"
  using scheduler_waits_after_every_batch [OF run_zero] run_zero by simp

text \<open>
  At the default configuration, with one recipient or with the three of the example
  file, the run is the only batch and then a wait of 10 minutes: a pacing delay after the
  final batch.
\<close>

theorem scheduler_waits_after_every_batch_counterexample:
  "validateConfig 500 500 10 10 = None
   \<and> scheduler (ledgerWith drawsZero) 500 500 10 10 ''T'' ''5'' [''a''] 0 0 [] =
       Some \<lparr>final_i = 1, events = [Submit ''T'' [''a''] ''5'', Wait (Whole 10)], failure = None\<rparr>
   \<and> sendBatchTransfer (tokenLedger 6 6000000) (transferArgs ''2'')
       = Some \<lparr>final_i = 3, events = [Submit ''0xT'' recipientsFile ''2000000'', Wait (Whole 10)],
               failure = None\<rparr>
   \<and> last [Submit ''0xT'' recipientsFile ''2000000'', Wait (Whole 10)] = Wait (Whole 10)"
proof (intro conjI)
  show "validateConfig 500 500 10 10 = None"
    by (simp add: validateConfig_def MAX_BATCH_SIZE_def)
  show "scheduler (ledgerWith drawsZero) 500 500 10 10 ''T'' ''5'' [''a''] 0 0 [] =
       Some \<lparr>final_i = 1, events = [Submit ''T'' [''a''] ''5'', Wait (Whole 10)], failure = None\<rparr>"
    by (simp add: run_simps drawsZero_def)
  show "sendBatchTransfer (tokenLedger 6 6000000) (transferArgs ''2'')
       = Some \<lparr>final_i = 3, events = [Submit ''0xT'' recipientsFile ''2000000'', Wait (Whole 10)],
               failure = None\<rparr>"
    by (simp only: default_task_reaches_scheduler default_scheduler_run)
  show "last [Submit ''0xT'' recipientsFile ''2000000'', Wait (Whole 10)] = Wait (Whole 10)"
    by simp
qed

end
